theory Spec2Isabelle
  imports Main "HOL-Library.Char_ord" "HOL-Library.List_Lexorder"
begin

section \<open>Strings and characters\<close>

text \<open>
  JavaScript strings are modelled as \<open>string\<close> (lists of 8-bit characters). Case mapping
  is the ASCII one: \<open>toUpperCase\<close> and \<open>toLowerCase\<close> move the 26 letters and leave every
  other character alone. Characters outside ASCII are not modelled.
\<close>

definition upperLetters :: string where
  "upperLetters = ''ABCDEFGHIJKLMNOPQRSTUVWXYZ''"

definition lowerLetters :: string where
  "lowerLetters = ''abcdefghijklmnopqrstuvwxyz''"

definition digitChars :: string where
  "digitChars = ''0123456789''"

definition isUpperLetter :: "char \<Rightarrow> bool" where
  "isUpperLetter c = (c \<in> set upperLetters)"

definition isLowerLetter :: "char \<Rightarrow> bool" where
  "isLowerLetter c = (c \<in> set lowerLetters)"

definition isDigit :: "char \<Rightarrow> bool" where
  "isDigit c = (c \<in> set digitChars)"

text \<open>\<open>c.toLowerCase()\<close> and \<open>c.toUpperCase()\<close> on one character.\<close>

definition toLowerCase :: "char \<Rightarrow> char" where
  "toLowerCase c = (case map_of (zip upperLetters lowerLetters) c of Some l \<Rightarrow> l | None \<Rightarrow> c)"

definition toUpperCase :: "char \<Rightarrow> char" where
  "toUpperCase c = (case map_of (zip lowerLetters upperLetters) c of Some u \<Rightarrow> u | None \<Rightarrow> c)"

text \<open>\<open>xs.join(sep)\<close> on an array of strings.\<close>

fun join :: "string \<Rightarrow> string list \<Rightarrow> string" where
  "join sep [] = []"
| "join sep [x] = x"
| "join sep (x # y # ys) = x @ sep @ join sep (y # ys)"

text \<open>
  \<open>s.split(d)\<close> for a one-character separator: the pieces between the separators, the
  empty string giving one empty piece. \<open>splitAcc\<close> carries the piece being read.
\<close>

fun splitAcc :: "char \<Rightarrow> string \<Rightarrow> string \<Rightarrow> string list" where
  "splitAcc d cur [] = [cur]"
| "splitAcc d cur (c # cs) = (if c = d then cur # splitAcc d [] cs else splitAcc d (cur @ [c]) cs)"

definition split :: "char \<Rightarrow> string \<Rightarrow> string list" where
  "split d s = splitAcc d [] s"

section \<open>Name normalizer\<close>

text \<open>
  The test \<open>ch && ch === ch.toUpperCase()\<close> of \<open>removeAcronymFromCamel\<close>: a character
  that is there and is its own upper case (so every character but a lower-case letter).
\<close>

definition charIsUpperCase :: "char option \<Rightarrow> bool" where
  "charIsUpperCase ch = (case ch of None \<Rightarrow> False | Some c \<Rightarrow> c = toUpperCase c)"

text \<open>
  The loop of \<open>removeAcronymFromCamel\<close> over the positions of \<open>val\<close>: \<open>prevChar\<close> is
  \<open>val[i - 1]\<close> (absent at the first position), the list is \<open>val\<close> from position \<open>i\<close>
  on, so \<open>nextChar\<close> is the head of its tail and \<open>i === val.length - 1\<close> says the tail is
  empty.
\<close>

fun removeAcronymLoop :: "char option \<Rightarrow> string \<Rightarrow> string" where
  "removeAcronymLoop prevChar [] = []"
| "removeAcronymLoop prevChar (c # rest) =
     (let nextChar = (case rest of [] \<Rightarrow> None | n # _ \<Rightarrow> Some n);
          prevCharIsUpperCase = charIsUpperCase prevChar;
          charIsUpper = charIsUpperCase (Some c);
          nextCharIsUpperCase = charIsUpperCase nextChar
      in (if prevCharIsUpperCase \<and> charIsUpper \<and> (nextCharIsUpperCase \<or> rest = [])
          then toLowerCase c else c) # removeAcronymLoop (Some c) rest)"

definition removeAcronymFromCamel :: "string \<Rightarrow> string" where
  "removeAcronymFromCamel val = removeAcronymLoop None val"

text \<open>
  Modelled from the spec: \<open>humps.decamelize\<close> (the file \<open>./humps\<close> is not part of the
  sources at hand). The spec's words: insert a separator before each remaining uppercase
  letter that follows a lowercase letter or digit, then lowercase the whole string.
\<close>

fun separateWords :: "char option \<Rightarrow> string \<Rightarrow> string" where
  "separateWords prevChar [] = []"
| "separateWords prevChar (c # rest) =
     (if isUpperLetter c \<and> (case prevChar of None \<Rightarrow> False
                               | Some p \<Rightarrow> isLowerLetter p \<or> isDigit p)
      then CHR ''_'' # c # separateWords (Some c) rest
      else c # separateWords (Some c) rest)"

definition decamelize :: "string \<Rightarrow> string" where
  "decamelize s = map toLowerCase (separateWords None s)"

definition toSnakeCase :: "string \<Rightarrow> string" where
  "toSnakeCase v = decamelize (removeAcronymFromCamel v)"

section \<open>JavaScript values\<close>

text \<open>
  The values of type \<open>any\<close> that filters and rows carry, as \<open>JSON.parse\<close> builds them.
  Numbers are integers (the fractional and the non-finite numbers are not modelled). An
  object is the list of its own enumerable properties in enumeration order (the array
  indices in ascending order first, then the other keys in the order of their creation),
  with distinct keys; its prototype is \<open>Object.prototype\<close>, an array's is
  \<open>Array.prototype\<close>. No value is a function and no property is an accessor.
\<close>

datatype jsval =
    JUndefined
  | JNull
  | JBool bool
  | JNum int
  | JStr string
  | JArr "jsval list"
  | JObj "(string \<times> jsval) list"

type_synonym StringKeyMap = "(string \<times> jsval) list"

text \<open>
  \<open>obj[key]\<close> on the own properties of an object of the caller: the value of the
  property, \<open>undefined\<close> when there is none. (Where the object has no such property and
  the key is the name of a member of \<open>Object.prototype\<close>, the read finds that member;
  the keys read this way, column names and the names \<open>op\<close> and \<open>value\<close>, are taken not
  to be such names. The reads of the chain table and of the objects that the code builds
  are modelled with what they inherit, below.)
\<close>

definition objGet :: "StringKeyMap \<Rightarrow> string \<Rightarrow> jsval" where
  "objGet obj key = (case map_of obj key of None \<Rightarrow> JUndefined | Some v \<Rightarrow> v)"

text \<open>
  \<open>obj[key] = v\<close> on own properties: an existing property keeps its place, a new one
  goes last. (It is used where the property exists, and for the chain table, which is
  only read by key; the place that a new array index takes is in \<open>defineProperty\<close>
  below.)
\<close>

fun objSet :: "(string \<times> 'a) list \<Rightarrow> string \<Rightarrow> 'a \<Rightarrow> (string \<times> 'a) list" where
  "objSet [] key v = [(key, v)]"
| "objSet ((k, w) # rest) key v = (if k = key then (k, v) # rest else (k, w) # objSet rest key v)"

text \<open>Truthiness, as \<open>!!v\<close> computes it.\<close>

fun truthy :: "jsval \<Rightarrow> bool" where
  "truthy JUndefined = False"
| "truthy JNull = False"
| "truthy (JBool b) = b"
| "truthy (JNum n) = (n \<noteq> 0)"
| "truthy (JStr s) = (s \<noteq> [])"
| "truthy (JArr xs) = True"
| "truthy (JObj kvs) = True"

text \<open>Decimal digits of a number, as the template literal \<open>`$${i}`\<close> prints them.\<close>

definition digitOf :: "nat \<Rightarrow> char" where
  "digitOf d = digitChars ! d"

fun showNat :: "nat \<Rightarrow> string" where
  "showNat n = (if n < 10 then [digitOf n] else showNat (n div 10) @ [digitOf (n mod 10)])"

declare showNat.simps [simp del]

definition showInt :: "int \<Rightarrow> string" where
  "showInt i = (if i < 0 then CHR ''-'' # showNat (nat (- i)) else showNat (nat i))"

text \<open>
  \<open>v.toString()\<close> on a truthy value (the router calls it on the chain id after the
  truthiness test); \<open>None\<close> is the \<open>TypeError\<close> of a call that finds no function. An
  array prints its elements separated by commas, \<open>null\<close> and \<open>undefined\<close> elements as
  the empty string. An object prints as \<open>[object Object]\<close>, unless it has an own
  property \<open>toString\<close>: that one is found first and, being no function, cannot be
  called (and as an element of an array the object has no primitive value).
\<close>

fun jsToString :: "jsval \<Rightarrow> string option" where
  "jsToString JUndefined = Some ''undefined''"
| "jsToString JNull = Some ''null''"
| "jsToString (JBool b) = Some (if b then ''true'' else ''false'')"
| "jsToString (JNum n) = Some (showInt n)"
| "jsToString (JStr s) = Some s"
| "jsToString (JArr xs) =
     map_option (join '','')
       (those (map (\<lambda>v. if v = JUndefined \<or> v = JNull then Some [] else jsToString v) xs))"
| "jsToString (JObj kvs) =
     (if ''toString'' \<in> fst ` set kvs then None else Some ''[object Object]'')"

text \<open>
  \<open>a === b\<close> where \<open>a\<close> and \<open>b\<close> are the values of two different filter groups: primitive
  values are compared by value; two arrays or two objects are equal only when they are
  the same object, and the groups are taken to share none.
\<close>

fun isPrimitive :: "jsval \<Rightarrow> bool" where
  "isPrimitive (JArr xs) = False"
| "isPrimitive (JObj kvs) = False"
| "isPrimitive v = True"

definition strictEquals :: "jsval \<Rightarrow> jsval \<Rightarrow> bool" where
  "strictEquals a b = (isPrimitive a \<and> a = b)"

subsection \<open>Objects that the code builds\<close>

text \<open>
  The objects that the code fills by \<open>obj[key] = v\<close> start as \<open>{}\<close>, and an assignment
  to the key \<open>__proto__\<close> reaches the accessor of \<open>Object.prototype\<close>: it creates no
  property, and gives the object the assigned object or array as its prototype (\<open>null\<close>
  takes the prototype away, any other value is ignored). So such an object is its own
  properties together with its prototype.
\<close>

datatype Prototype = ObjectPrototype | NullPrototype | ValuePrototype jsval

type_synonym JsObject = "StringKeyMap \<times> Prototype"

text \<open>An object that the caller passed.\<close>

definition plainObject :: "StringKeyMap \<Rightarrow> JsObject" where
  "plainObject kvs = (kvs, ObjectPrototype)"

text \<open>
  A key is an array index when it is the decimal notation of a number below
  \<open>4294967295\<close>; own properties with such keys are enumerated first, in ascending order.
\<close>

definition indexValue :: "string \<Rightarrow> nat" where
  "indexValue key = foldl (\<lambda>n c. 10 * n + (case map_of (zip digitChars [0..<10]) c of
                                             None \<Rightarrow> 0 | Some d \<Rightarrow> d)) 0 key"

definition isArrayIndex :: "string \<Rightarrow> bool" where
  "isArrayIndex key \<longleftrightarrow>
     key \<noteq> [] \<and> list_all isDigit key \<and> (key = ''0'' \<or> hd key \<noteq> CHR ''0'')
       \<and> indexValue key < 4294967295"

fun insertIndex :: "StringKeyMap \<Rightarrow> string \<Rightarrow> jsval \<Rightarrow> StringKeyMap" where
  "insertIndex [] key v = [(key, v)]"
| "insertIndex ((k, w) # rest) key v =
     (if isArrayIndex k \<and> indexValue k < indexValue key then (k, w) # insertIndex rest key v
      else (key, v) # (k, w) # rest)"

text \<open>A new own property: an array index takes its place among the indices, any other key goes last.\<close>

definition defineProperty :: "StringKeyMap \<Rightarrow> string \<Rightarrow> jsval \<Rightarrow> StringKeyMap" where
  "defineProperty own key v = (if isArrayIndex key then insertIndex own key v else own @ [(key, v)])"

text \<open>
  The enumerable properties that an object inherits, in enumeration order: the own
  properties of a prototype that is a value (the elements of an array under their
  indices); \<open>Object.prototype\<close> and \<open>Array.prototype\<close> have none.
\<close>

fun inheritedEntries :: "Prototype \<Rightarrow> StringKeyMap" where
  "inheritedEntries (ValuePrototype (JObj kvs)) = kvs"
| "inheritedEntries (ValuePrototype (JArr xs)) = zip (map showNat [0..<length xs]) xs"
| "inheritedEntries p = []"

text \<open>
  \<open>for (const key in obj)\<close> together with the read \<open>obj[key]\<close>: the own properties,
  then the inherited ones that no own property shadows.
\<close>

definition forIn :: "JsObject \<Rightarrow> StringKeyMap" where
  "forIn obj =
     (case obj of (own, p) \<Rightarrow>
        own @ filter (\<lambda>(key, v). key \<notin> fst ` set own) (inheritedEntries p))"

text \<open>
  Whether an assignment to \<open>__proto__\<close> on an object with this prototype reaches the
  accessor of \<open>Object.prototype\<close>: not when there is no prototype, and not when the
  prototype has an own property of that name (a data property, which the assignment
  then shadows by an own property of the object).
\<close>

fun reachesProtoAccessor :: "Prototype \<Rightarrow> bool" where
  "reachesProtoAccessor NullPrototype = False"
| "reachesProtoAccessor (ValuePrototype (JObj kvs)) = (''__proto__'' \<notin> fst ` set kvs)"
| "reachesProtoAccessor p = True"

text \<open>\<open>obj[key] = v\<close> on an object that the code builds.\<close>

definition assign :: "JsObject \<Rightarrow> string \<Rightarrow> jsval \<Rightarrow> JsObject" where
  "assign obj key v =
     (case obj of (own, p) \<Rightarrow>
        if key \<in> fst ` set own then (objSet own key v, p)
        else if key = ''__proto__'' \<and> reachesProtoAccessor p then
          (case v of
             JObj kvs \<Rightarrow> (own, ValuePrototype v)
           | JArr xs \<Rightarrow> (own, ValuePrototype v)
           | JNull \<Rightarrow> (own, NullPrototype)
           | _ \<Rightarrow> (own, p))
        else (defineProperty own key v, p))"

section \<open>Identifier and literal formatter\<close>

text \<open>
  Modelled from the spec: \<open>ident\<close> of \<open>./pgFormat\<close> (not part of the sources at hand)
  quotes a single identifier per the dialect's quoting rules: the name between double
  quotes, a double quote inside it doubled. The spec's examples quote every identifier.
\<close>

definition ident :: "string \<Rightarrow> string" where
  "ident name = CHR 0x22 # concat (map (\<lambda>c. if c = CHR 0x22 then [c, c] else [c]) name) @ [CHR 0x22]"

text \<open>
  Modelled from the spec: \<open>literal\<close> of \<open>./pgFormat\<close> on a number (offset, limit and the
  block range are numbers): numbers are rendered unquoted.
\<close>

definition literal :: "int \<Rightarrow> string" where
  "literal n = showInt n"

definition identPath :: "string \<Rightarrow> string" where
  "identPath v = join ''.'' (map ident (split CHR ''.'' v))"

section \<open>Results and errors\<close>

text \<open>
  What the code throws: the three strings of the source, and the \<open>TypeError\<close> that
  JavaScript raises on a property read from \<open>null\<close> or \<open>undefined\<close>.
\<close>

datatype error =
    TypeError
  | NoValuesToUpsert  \<comment> \<open>\<open>'No values to upsert'\<close>\<close>
  | FiltersRequired  \<comment> \<open>\<open>`Filters are required when querying the ${SPEC_SCHEMA} schema`\<close>\<close>
  | MissingChainIdFilter  \<comment> \<open>\<open>`No ${CHAIN_ID_PROPERTY} filter included with ...`\<close>\<close>
  | InconsistentChainIdAcrossFilterGroups  \<comment> \<open>\<open>`All filters must have equivalent ...`\<close>\<close>

record QueryPayload =
  schemaName :: string
  tableName :: "string option"
  sql :: string
  bindings :: "jsval list"

text \<open>
  \<open>const [schemaName, tableName] = table.split('.')\<close>: the first piece, and the second
  when there is one (\<open>undefined\<close> otherwise).
\<close>

definition splitTable :: "string \<Rightarrow> string \<times> string option" where
  "splitTable table =
     (case split CHR ''.'' table of
        [] \<Rightarrow> ([], None)
      | [s] \<Rightarrow> (s, None)
      | s # t # _ \<Rightarrow> (s, Some t))"

section \<open>Upsert compiler\<close>

text \<open>
  The inner loop of \<open>buildUpsertQuery\<close> over \<open>insertColNames\<close> for one row, on the state
  \<open>(entryPlaceholders, bindings, i)\<close>.
\<close>

fun upsertEntry ::
  "StringKeyMap \<Rightarrow> string list \<Rightarrow> string list \<times> jsval list \<times> nat
     \<Rightarrow> string list \<times> jsval list \<times> nat" where
  "upsertEntry entry [] st = st"
| "upsertEntry entry (colName # cols) (entryPlaceholders, binds, i) =
     upsertEntry entry cols
       (entryPlaceholders @ [''$'' @ showNat i], binds @ [objGet entry colName], i + 1)"

text \<open>The outer loop over the rows, on the state \<open>(placeholders, bindings, i)\<close>.\<close>

fun upsertData ::
  "string list \<Rightarrow> StringKeyMap list \<Rightarrow> string list \<times> jsval list \<times> nat
     \<Rightarrow> string list \<times> jsval list \<times> nat" where
  "upsertData insertColNames [] st = st"
| "upsertData insertColNames (entry # rest) (placeholders, binds, i) =
     (case upsertEntry entry insertColNames ([], binds, i) of
        (entryPlaceholders, binds', i') \<Rightarrow>
          upsertData insertColNames rest
            (placeholders @ [''('' @ join '', '' entryPlaceholders @ '')''], binds', i'))"

datatype Returning = ReturningString string | ReturningArray "string list"

text \<open>
  \<open>buildUpsertQuery\<close>. \<open>data\<close> is the array of rows (a single row is wrapped by the
  source); on an empty array \<open>Object.keys(data[0])\<close> raises a \<open>TypeError\<close>. An optional
  argument is \<open>None\<close> when it is not passed; the source tests its truthiness.
\<close>

definition buildUpsertQuery ::
  "string \<Rightarrow> StringKeyMap list \<Rightarrow> string list \<Rightarrow> string list \<Rightarrow> string option
     \<Rightarrow> Returning option \<Rightarrow> error + QueryPayload" where
  "buildUpsertQuery table data conflictColumns updateColumns primaryTimestampColumn returning =
     (case data of
        [] \<Rightarrow> Inl TypeError
      | first # _ \<Rightarrow>
          (let insertColNames = sort (map fst first) in
           if insertColNames = [] then Inl NoValuesToUpsert
           else
             (let (schema, tbl) = splitTable table;
                  sql0 = ''insert into '' @ identPath table @ '' (''
                           @ join '', '' (map ident (map toSnakeCase insertColNames)) @ '')'';
                  (placeholders, binds, i) = upsertData insertColNames data ([], [], 1);
                  sql1 = sql0 @ '' values '' @ join '', '' placeholders @ '' on conflict (''
                           @ join '', '' (map ident (map toSnakeCase conflictColumns)) @ '')''
              in if updateColumns = []
                 then Inr \<lparr> schemaName = schema, tableName = tbl,
                            sql = sql1 @ '' do nothing'', bindings = binds \<rparr>
                 else
                   (let updateColumns' = map toSnakeCase updateColumns;
                        updates = map (\<lambda>updateColName.
                                    ident updateColName @ '' = excluded.'' @ ident updateColName)
                                    updateColumns';
                        sql2 = sql1 @ '' do update set '' @ join '', '' updates;
                        sql3 = (case primaryTimestampColumn of
                                  None \<Rightarrow> sql2
                                | Some col \<Rightarrow>
                                    if col = [] then sql2
                                    else sql2 @ '' where ''
                                           @ identPath (join ''.'' [table, col])
                                           @ '' <= excluded.'' @ ident col);
                        sql4 = (case returning of
                                  None \<Rightarrow> sql3
                                | Some (ReturningString r) \<Rightarrow>
                                    if r = [] then sql3
                                    else sql3 @ '' returning ''
                                           @ (if r = ''*'' then ''*''
                                              else join '', '' (map ident (map toSnakeCase [r])))
                                | Some (ReturningArray rs) \<Rightarrow>
                                    sql3 @ '' returning ''
                                      @ join '', '' (map ident (map toSnakeCase rs)))
                    in Inr \<lparr> schemaName = schema, tableName = tbl,
                               sql = sql4, bindings = binds \<rparr>))))"

text \<open>
  The source file holds a second variant of the module, after the first. Its
  \<open>buildUpsertQuery\<close> is the one above except that the payload is \<open>{ sql, bindings }\<close>
  alone and that the timestamp guard compares with \<open>>=\<close>.
\<close>

definition buildUpsertQuery2 ::
  "string \<Rightarrow> StringKeyMap list \<Rightarrow> string list \<Rightarrow> string list \<Rightarrow> string option
     \<Rightarrow> Returning option \<Rightarrow> error + (string \<times> jsval list)" where
  "buildUpsertQuery2 table data conflictColumns updateColumns primaryTimestampColumn returning =
     (case data of
        [] \<Rightarrow> Inl TypeError
      | first # _ \<Rightarrow>
          (let insertColNames = sort (map fst first) in
           if insertColNames = [] then Inl NoValuesToUpsert
           else
             (let sql0 = ''insert into '' @ identPath table @ '' (''
                           @ join '', '' (map ident (map toSnakeCase insertColNames)) @ '')'';
                  (placeholders, binds, i) = upsertData insertColNames data ([], [], 1);
                  sql1 = sql0 @ '' values '' @ join '', '' placeholders @ '' on conflict (''
                           @ join '', '' (map ident (map toSnakeCase conflictColumns)) @ '')''
              in if updateColumns = []
                 then Inr (sql1 @ '' do nothing'', binds)
                 else
                   (let updateColumns' = map toSnakeCase updateColumns;
                        updates = map (\<lambda>updateColName.
                                    ident updateColName @ '' = excluded.'' @ ident updateColName)
                                    updateColumns';
                        sql2 = sql1 @ '' do update set '' @ join '', '' updates;
                        sql3 = (case primaryTimestampColumn of
                                  None \<Rightarrow> sql2
                                | Some col \<Rightarrow>
                                    if col = [] then sql2
                                    else sql2 @ '' where ''
                                           @ identPath (join ''.'' [table, col])
                                           @ '' >= excluded.'' @ ident col);
                        sql4 = (case returning of
                                  None \<Rightarrow> sql3
                                | Some (ReturningString r) \<Rightarrow>
                                    if r = [] then sql3
                                    else sql3 @ '' returning ''
                                           @ (if r = ''*'' then ''*''
                                              else join '', '' (map ident (map toSnakeCase [r])))
                                | Some (ReturningArray rs) \<Rightarrow>
                                    sql3 @ '' returning ''
                                      @ join '', '' (map ident (map toSnakeCase rs)))
                    in Inr (sql4, binds)))))"

section \<open>Chain table\<close>

text \<open>\<open>invert\<close> of \<open>chains.ts\<close>: \<open>obj2[obj1[key]] = key\<close> for every key of \<open>obj1\<close>.\<close>

definition invert :: "(string \<times> string) list \<Rightarrow> (string \<times> string) list" where
  "invert obj1 = foldl (\<lambda>obj2 (key, v). objSet obj2 v key) [] obj1"

definition chainIds :: "(string \<times> string) list" where
  "chainIds =
     [(''ETHEREUM'', ''1''), (''GOERLI'', ''5''), (''POLYGON'', ''137''), (''MUMBAI'', ''80001''),
      (''BASE'', ''8453''), (''OPTIMISM'', ''10''), (''ARBITRUM'', ''42161''), (''PGN'', ''424''),
      (''CELO'', ''42220''), (''LINEA'', ''59144''), (''SEPOLIA'', ''11155111'')]"

definition chainSpecificSchemas :: "(string \<times> string) list" where
  "chainSpecificSchemas =
     [(''ETHEREUM'', ''ethereum''), (''GOERLI'', ''goerli''), (''POLYGON'', ''polygon''),
      (''MUMBAI'', ''mumbai''), (''BASE'', ''base''), (''OPTIMISM'', ''optimism''),
      (''ARBITRUM'', ''arbitrum''), (''PGN'', ''pgn''), (''CELO'', ''celo''),
      (''LINEA'', ''linea''), (''SEPOLIA'', ''sepolia'')]"

text \<open>
  \<open>chainIdForSchema\<close>: for each chain name \<open>X\<close> of the source, in its order, the property
  \<open>[chainSpecificSchemas.X]: chainIds.X\<close>.
\<close>

definition chainIdForSchema :: "(string \<times> string) list" where
  "chainIdForSchema =
     concat (map (\<lambda>(name, schema).
                case map_of chainIds name of None \<Rightarrow> [] | Some cid \<Rightarrow> [(schema, cid)])
             chainSpecificSchemas)"

definition schemaForChainId :: "(string \<times> string) list" where
  "schemaForChainId = invert chainIdForSchema"

text \<open>
  The members that every plain object inherits from \<open>Object.prototype\<close>, each with the
  text it has as an element of \<open>Array.prototype.join\<close> (the text of a built-in function
  as Node.js prints it; \<open>__proto__\<close> reads as the prototype object itself).
\<close>

definition objectPrototypeMembers :: "(string \<times> string) list" where
  "objectPrototypeMembers =
     [(''constructor'', ''function Object() { [native code] }''),
      (''__defineGetter__'', ''function __defineGetter__() { [native code] }''),
      (''__defineSetter__'', ''function __defineSetter__() { [native code] }''),
      (''hasOwnProperty'', ''function hasOwnProperty() { [native code] }''),
      (''__lookupGetter__'', ''function __lookupGetter__() { [native code] }''),
      (''__lookupSetter__'', ''function __lookupSetter__() { [native code] }''),
      (''isPrototypeOf'', ''function isPrototypeOf() { [native code] }''),
      (''propertyIsEnumerable'', ''function propertyIsEnumerable() { [native code] }''),
      (''toString'', ''function toString() { [native code] }''),
      (''valueOf'', ''function valueOf() { [native code] }''),
      (''__proto__'', ''[object Object]''),
      (''toLocaleString'', ''function toLocaleString() { [native code] }'')]"

text \<open>
  \<open>schemaForChainId[key]\<close>: the table is a plain object, so the read finds an entry of
  the table or else an inherited member, and is \<open>undefined\<close> (here \<open>None\<close>) only when
  there is neither. Every value found is truthy; the result is its text in
  \<open>[chainSchema, tableName].join('.')\<close>.
\<close>

definition schemaForChainIdAt :: "string \<Rightarrow> string option" where
  "schemaForChainIdAt key =
     (case map_of schemaForChainId key of
        Some chainSchema \<Rightarrow> Some chainSchema
      | None \<Rightarrow> map_of objectPrototypeMembers key)"

section \<open>Select options and filters\<close>

datatype OrderByColumn = OneColumn string | ManyColumns "string list"

record OrderBy =
  column :: OrderByColumn
  direction :: string

text \<open>
  \<open>SelectOptions\<close>: every field is optional, \<open>None\<close> when the property is not there. An
  absent \<open>options\<close> argument is the record with no field set.
\<close>

record SelectOptions =
  orderBy :: "OrderBy option"
  offset :: "int option"
  limit :: "int option"
  chainId :: "string option"
  blockRange :: "int list option"

definition noOptions :: SelectOptions where
  "noOptions = \<lparr> orderBy = None, offset = None, limit = None, chainId = None, blockRange = None \<rparr>"

text \<open>
  The \<open>filters\<close> argument: one group, or an array of groups whose falsy elements (here
  \<open>None\<close>) are dropped; \<open>undefined\<close> and \<open>null\<close> are what a caller without filters
  passes.
\<close>

datatype Filters =
    FiltersUndefined
  | FiltersNull
  | FiltersMap StringKeyMap
  | FiltersArray "StringKeyMap option list"

definition filterOpValues :: "string list" where
  "filterOpValues = [''='', ''!='', ''>'', ''>='', ''<'', ''<='', ''in'', ''not in'']"

definition orderByDirections :: "string list" where
  "orderByDirections = [''asc'', ''desc'']"

definition emptyResponseTable :: string where
  "emptyResponseTable = ''ethereum.blocks''"

definition emptyResponseFilters :: "StringKeyMap list" where
  "emptyResponseFilters = [[(''number'', JNum (- 1))]]"

section \<open>Chain schema router\<close>

text \<open>An array element that is \<open>undefined\<close> joins as the empty string.\<close>

definition orEmpty :: "string option \<Rightarrow> string" where
  "orEmpty s = (case s of None \<Rightarrow> [] | Some t \<Rightarrow> t)"

text \<open>
  The copy of a group that the router makes: \<open>newFilter[key] = filter[key]\<close> for every
  key of the group but the chain-id property.
\<close>

definition copyWithout :: "string \<Rightarrow> StringKeyMap \<Rightarrow> JsObject" where
  "copyWithout CHAIN_ID_PROPERTY flt =
     foldl (\<lambda>newFilter (key, v). if key = CHAIN_ID_PROPERTY then newFilter
                                  else assign newFilter key v)
       ([], ObjectPrototype) flt"

text \<open>
  \<open>detectSpecSchemaQuery\<close>. The constants \<open>SPEC_SCHEMA\<close> and \<open>CHAIN_ID_PROPERTY\<close> of
  \<open>./constants\<close> are parameters. The groups it is given are objects of the caller; the
  groups it returns are those, or the copies it made.

  \<open>filters[0][CHAIN_ID_PROPERTY]\<close> reads an own property of the first group; were the
  constant the name of a member of \<open>Object.prototype\<close> and the group without such a
  property, the read would find the inherited member, which is truthy and whose text is
  no key of the chain table. In \<open>filters.every(...)\<close> the first group's value is compared
  with itself.
\<close>

definition detectSpecSchemaQuery ::
  "string \<Rightarrow> string \<Rightarrow> string \<Rightarrow> StringKeyMap list \<Rightarrow> SelectOptions
     \<Rightarrow> error + (string \<times> JsObject list)" where
  "detectSpecSchemaQuery SPEC_SCHEMA CHAIN_ID_PROPERTY table filters options =
     (case splitTable table of (schema, tbl) \<Rightarrow>
        if schema \<noteq> SPEC_SCHEMA then Inr (table, map plainObject filters)
        else if (case chainId options of None \<Rightarrow> False | Some c \<Rightarrow> c \<noteq> []) then
          (case schemaForChainIdAt (orEmpty (chainId options)) of
             None \<Rightarrow> Inr (emptyResponseTable, map plainObject emptyResponseFilters)
           | Some chainSchema \<Rightarrow>
               Inr (join ''.'' [chainSchema, orEmpty tbl], map plainObject filters))
        else
          (case filters of
             [] \<Rightarrow> Inl FiltersRequired
           | first # rest \<Rightarrow>
               if CHAIN_ID_PROPERTY \<notin> fst ` set first
                    \<and> CHAIN_ID_PROPERTY \<in> fst ` set objectPrototypeMembers
               then Inr (emptyResponseTable, map plainObject emptyResponseFilters)
               else
                 (let cid = objGet first CHAIN_ID_PROPERTY in
                  if \<not> truthy cid then Inl MissingChainIdFilter
                  else
                    (case jsToString cid of
                       None \<Rightarrow> Inl TypeError
                     | Some cidText \<Rightarrow>
                         (case schemaForChainIdAt cidText of
                            None \<Rightarrow> Inr (emptyResponseTable, map plainObject emptyResponseFilters)
                          | Some chainSchema \<Rightarrow>
                              if \<not> list_all (\<lambda>f. strictEquals (objGet f CHAIN_ID_PROPERTY) cid) rest
                              then Inl InconsistentChainIdAcrossFilterGroups
                              else Inr (join ''.'' [chainSchema, orEmpty tbl],
                                        map (copyWithout CHAIN_ID_PROPERTY) filters))))))"

section \<open>Filter compiler\<close>

text \<open>The shape tests of \<open>buildAndStatement\<close>: \<open>Array.isArray(v)\<close> and \<open>typeof v === 'object'\<close>.\<close>

fun isArrayValue :: "jsval \<Rightarrow> bool" where
  "isArrayValue (JArr xs) = True"
| "isArrayValue v = False"

fun typeofObject :: "jsval \<Rightarrow> bool" where
  "typeofObject JNull = True"
| "typeofObject (JArr xs) = True"
| "typeofObject (JObj kvs) = True"
| "typeofObject v = False"

text \<open>\<open>Object.keys(v)\<close> of an object value, and \<open>v.hasOwnProperty(key)\<close>.\<close>

fun objectEntries :: "jsval \<Rightarrow> StringKeyMap" where
  "objectEntries (JObj kvs) = kvs"
| "objectEntries v = []"

definition hasOwnProperty :: "jsval \<Rightarrow> string \<Rightarrow> bool" where
  "hasOwnProperty v key = (key \<in> fst ` set (objectEntries v))"

text \<open>
  The loop \<open>for (const v of value)\<close> over a list value, on the state
  \<open>(valuePlaceholders, values, bindingIndex.i)\<close>.
\<close>

fun bindList ::
  "jsval list \<Rightarrow> string list \<times> jsval list \<times> nat \<Rightarrow> string list \<times> jsval list \<times> nat" where
  "bindList [] st = st"
| "bindList (v # vs) (valuePlaceholders, vals, i) =
     bindList vs (valuePlaceholders @ [''$'' @ showNat i], vals @ [v], i + 1)"

text \<open>
  One round of the loop of \<open>buildAndStatement\<close>, for the entry \<open>colPath: val\<close>, on the
  state \<open>(statements, values, bindingIndex.i)\<close>. The source reads \<open>value.op\<close> as soon as
  \<open>isObject\<close> holds, which on \<open>null\<close> (whose \<open>typeof\<close> is \<open>'object'\<close>) raises a
  \<open>TypeError\<close> before the test \<open>value === null\<close> is reached. A round that ends in
  \<open>continue\<close> returns the state as it is.
\<close>

definition andEntry ::
  "string \<Rightarrow> jsval \<Rightarrow> string list \<times> jsval list \<times> nat
     \<Rightarrow> error + (string list \<times> jsval list \<times> nat)" where
  "andEntry colPath val st =
     (case st of (statements, vals, i) \<Rightarrow>
        (let isArray = isArrayValue val;
             isObject = (\<not> isArray \<and> typeofObject val)
         in if isObject \<and> val = JNull then Inl TypeError
            else
              (let isFilterObject =
                     (isObject \<and> truthy (objGet (objectEntries val) ''op'')
                        \<and> hasOwnProperty val ''value'')
               in if val = JNull \<or> val = JUndefined
                     \<or> (isArray \<and> (case val of JArr xs \<Rightarrow> xs = [] | _ \<Rightarrow> False))
                     \<or> (isArray \<and> (case val of JArr xs \<Rightarrow> list_ex isArrayValue xs | _ \<Rightarrow> False))
                     \<or> (isObject \<and> (objectEntries val = [] \<or> \<not> isFilterObject))
                  then Inr st
                  else
                    (let isMultiColComparison = (CHR '','' \<in> set colPath);
                         (opv, val') =
                            (if isArray \<and> \<not> isMultiColComparison then (JStr ''in'', val)
                             else if isFilterObject
                             then (objGet (objectEntries val) ''op'',
                                   objGet (objectEntries val) ''value'')
                             else (JStr ''='', val))
                     in case opv of
                          JStr op \<Rightarrow>
                            if op \<notin> set filterOpValues then Inr st
                            else
                              (let (valuePlaceholder, vals', i') =
                                     (case val' of
                                        JArr xs \<Rightarrow>
                                          (case bindList xs ([], vals, i) of
                                             (valuePlaceholders, vs, j) \<Rightarrow>
                                               (''('' @ join '', '' valuePlaceholders @ '')'', vs, j))
                                      | _ \<Rightarrow> (''$'' @ showNat i, vals @ [val'], i + 1));
                                   colEntry =
                                     (if isMultiColComparison
                                      then ''('' @ join '', '' (map identPath (split CHR '','' colPath))
                                             @ '')''
                                      else identPath colPath)
                               in Inr (statements @ [colEntry @ '' '' @ op @ '' '' @ valuePlaceholder],
                                       vals', i'))
                        | _ \<Rightarrow> Inr st))))"

text \<open>The loop \<open>for (const colPath in filtersMap)\<close>, on the properties it visits.\<close>

fun andLoop ::
  "StringKeyMap \<Rightarrow> string list \<times> jsval list \<times> nat
     \<Rightarrow> error + (string list \<times> jsval list \<times> nat)" where
  "andLoop [] st = Inr st"
| "andLoop ((colPath, val) # rest) st =
     (case andEntry colPath val st of Inl e \<Rightarrow> Inl e | Inr st' \<Rightarrow> andLoop rest st')"

text \<open>
  \<open>buildAndStatement\<close> on a group, the \<open>values\<close> array and the binding counter: the
  statement (\<open>None\<close> for the \<open>null\<close> of a group with no key) and the two updated.
  \<open>Object.keys(filtersMap)\<close> counts the own properties; the loop visits the inherited
  ones as well.
\<close>

definition buildAndStatement ::
  "JsObject \<Rightarrow> jsval list \<Rightarrow> nat \<Rightarrow> error + (string option \<times> jsval list \<times> nat)" where
  "buildAndStatement filtersMap vals i =
     (if fst filtersMap = [] then Inr (None, vals, i)
      else (case andLoop (forIn filtersMap) ([], vals, i) of
              Inl e \<Rightarrow> Inl e
            | Inr (statements, vals', i') \<Rightarrow> Inr (Some (join '' and '' statements), vals', i')))"

definition addSelectOptionsToQuery :: "string \<Rightarrow> SelectOptions \<Rightarrow> string" where
  "addSelectOptionsToQuery sql0 options =
     (let sql1 =
            (case orderBy options of
               None \<Rightarrow> sql0
             | Some ob \<Rightarrow>
                 if (case column ob of OneColumn c \<Rightarrow> c \<noteq> [] | ManyColumns cs \<Rightarrow> True)
                    \<and> direction ob \<in> set orderByDirections
                 then sql0 @ '' order by (''
                        @ join '', '' (map identPath (map toSnakeCase
                            (case column ob of OneColumn c \<Rightarrow> [c] | ManyColumns cs \<Rightarrow> cs)))
                        @ '') '' @ direction ob
                 else sql0);
          sql2 = (case offset options of None \<Rightarrow> sql1
                  | Some n \<Rightarrow> sql1 @ '' offset '' @ literal n);
          sql3 = (case limit options of None \<Rightarrow> sql2
                  | Some n \<Rightarrow> sql2 @ '' limit '' @ literal n)
      in sql3)"

text \<open>
  The loop of \<open>buildSelectQuery\<close> over the groups, on the state
  \<open>(orStatements, values, bindingIndex.i)\<close>: a statement is pushed when it is neither
  \<open>null\<close> nor empty.
\<close>

fun orLoop ::
  "JsObject list \<Rightarrow> string list \<times> jsval list \<times> nat
     \<Rightarrow> error + (string list \<times> jsval list \<times> nat)" where
  "orLoop [] st = Inr st"
| "orLoop (inclusiveFilters # rest) (orStatements, vals, i) =
     (case buildAndStatement inclusiveFilters vals i of
        Inl e \<Rightarrow> Inl e
      | Inr (andStatement, vals', i') \<Rightarrow>
          orLoop rest
            ((case andStatement of
                None \<Rightarrow> orStatements
              | Some s \<Rightarrow> if s \<noteq> [] then orStatements @ [s] else orStatements),
             vals', i'))"

text \<open>
  The copy of a group under snake-cased keys: \<open>formatted[toSnakeCase(p)] = filter[p]\<close> for
  every property \<open>p\<close> that \<open>for (const propertyName in filter)\<close> visits.
\<close>

definition formatFilter :: "JsObject \<Rightarrow> JsObject" where
  "formatFilter flt =
     foldl (\<lambda>formatted (propertyName, v). assign formatted (toSnakeCase propertyName) v)
       ([], ObjectPrototype) (forIn flt)"

definition parenthesize :: "string \<Rightarrow> string" where
  "parenthesize s = ''('' @ s @ '')''"

text \<open>
  \<open>(filtersIsArray ? filters : [filters]).filter((f) => !!f)\<close>: the groups of the
  argument that are truthy, in order.
\<close>

fun truthyGroups :: "Filters \<Rightarrow> StringKeyMap list" where
  "truthyGroups (FiltersArray fs) = concat (map (\<lambda>f. case f of None \<Rightarrow> [] | Some g \<Rightarrow> [g]) fs)"
| "truthyGroups (FiltersMap g) = [g]"
| "truthyGroups FiltersUndefined = []"
| "truthyGroups FiltersNull = []"

text \<open>
  The \<open>whereGroups\<close> of \<open>buildSelectQuery\<close>: the block-range statement when
  \<open>blockRange\<close> has an element (with the upper bound when it has two), then the groups'
  statements, a single one as it is, several parenthesized and joined by \<open>or\<close>.
\<close>

definition whereGroups :: "int list \<Rightarrow> string list \<Rightarrow> string list" where
  "whereGroups blockRange0 orStatements =
     (let whereGroups0 =
            (case blockRange0 of
               [] \<Rightarrow> []
             | lo # upper \<Rightarrow>
                 [''block_number >= '' @ literal lo
                    @ (case upper of
                         [] \<Rightarrow> []
                       | hi # _ \<Rightarrow> '' and block_number <= '' @ literal hi)])
      in case orStatements of
           [] \<Rightarrow> whereGroups0
         | [s] \<Rightarrow> whereGroups0 @ [s]
         | _ \<Rightarrow> whereGroups0 @ [join '' or '' (map parenthesize orStatements)])"

text \<open>
  The \<open>whereClause\<close>: several groups are parenthesized and joined by \<open>and\<close>, a single one
  is \<open>whereGroups[0]\<close> (which would print as \<open>undefined\<close> on an empty array; the array
  is never empty where the clause is built).
\<close>

definition whereClause :: "string list \<Rightarrow> string" where
  "whereClause groups =
     (case groups of
        [] \<Rightarrow> ''undefined''
      | [g] \<Rightarrow> g
      | _ \<Rightarrow> join '' and '' (map parenthesize groups))"

text \<open>
  \<open>buildSelectQuery\<close>, with the two constants of \<open>./constants\<close> as parameters.
  \<open>filtersIsArray\<close> and \<open>filtersIsObject\<close> are computed on the argument before it is
  replaced by the array of its truthy groups, so \<open>!filters\<close> is false and
  \<open>Object.keys(filters)\<close> has one key for each group.
\<close>

definition buildSelectQuery ::
  "string \<Rightarrow> string \<Rightarrow> string \<Rightarrow> Filters \<Rightarrow> SelectOptions \<Rightarrow> error + QueryPayload" where
  "buildSelectQuery SPEC_SCHEMA CHAIN_ID_PROPERTY table filters options =
     (let blockRange0 = (case blockRange options of None \<Rightarrow> [] | Some r \<Rightarrow> r);
          filtersIsArray = (case filters of FiltersArray _ \<Rightarrow> True | _ \<Rightarrow> False);
          filtersIsObject = (case filters of FiltersNull \<Rightarrow> True | FiltersMap _ \<Rightarrow> True | _ \<Rightarrow> False);
          filters1 = truthyGroups filters
      in case detectSpecSchemaQuery SPEC_SCHEMA CHAIN_ID_PROPERTY table filters1 options of
           Inl e \<Rightarrow> Inl e
         | Inr (table', filters2) \<Rightarrow>
             (case splitTable table' of (schema, tbl) \<Rightarrow>
                (let select = ''select * from '' @ identPath table';
                     filtersIsEmpty =
                       ((filtersIsArray \<and> length filters2 = 0)
                          \<or> (filtersIsObject \<and> length filters2 = 0))
                 in if filtersIsEmpty \<and> blockRange0 = []
                    then Inr \<lparr> schemaName = schema, tableName = tbl,
                               sql = addSelectOptionsToQuery select options, bindings = [] \<rparr>
                    else
                      (case orLoop (map formatFilter filters2) ([], [], 1) of
                         Inl e \<Rightarrow> Inl e
                       | Inr (orStatements, vals, i) \<Rightarrow>
                           if orStatements = [] \<and> blockRange0 = []
                           then Inr \<lparr> schemaName = schema, tableName = tbl,
                                      sql = addSelectOptionsToQuery select options,
                                      bindings = [] \<rparr>
                           else
                             Inr \<lparr> schemaName = schema, tableName = tbl,
                                   sql = addSelectOptionsToQuery
                                           (select @ '' where ''
                                              @ whereClause (whereGroups blockRange0 orStatements))
                                           options,
                                   bindings = vals \<rparr>))))"

section \<open>Placeholders of a statement\<close>

text \<open>
  The positional placeholders that a statement contains, in the order they appear, as
  the database reads them: \<open>$\<close> followed by decimal digits, outside a double-quoted
  identifier and outside a single-quoted literal (a doubled quote inside either leaves
  and re-enters it). The scanner reads the text left to right; \<open>Param n\<close> is the state
  inside a placeholder whose digits so far read \<open>n\<close>.
\<close>

datatype lexMode = Code | Quoted | Literal | Dollar | Param nat

definition digitValue :: "char \<Rightarrow> nat" where
  "digitValue c = (case map_of (zip digitChars [0..<10]) c of None \<Rightarrow> 0 | Some d \<Rightarrow> d)"

definition codeStep :: "char \<Rightarrow> nat list \<Rightarrow> lexMode \<times> nat list" where
  "codeStep c out =
     (if c = CHR 0x22 then (Quoted, out)
      else if c = CHR 0x27 then (Literal, out)
      else if c = CHR ''$'' then (Dollar, out)
      else (Code, out))"

fun lexStep :: "lexMode \<times> nat list \<Rightarrow> char \<Rightarrow> lexMode \<times> nat list" where
  "lexStep (Code, out) c = codeStep c out"
| "lexStep (Quoted, out) c = (if c = CHR 0x22 then (Code, out) else (Quoted, out))"
| "lexStep (Literal, out) c = (if c = CHR 0x27 then (Code, out) else (Literal, out))"
| "lexStep (Dollar, out) c = (if isDigit c then (Param (digitValue c), out) else codeStep c out)"
| "lexStep (Param n, out) c =
     (if isDigit c then (Param (10 * n + digitValue c), out) else codeStep c (out @ [n]))"

fun flush :: "lexMode \<times> nat list \<Rightarrow> nat list" where
  "flush (Param n, out) = out @ [n]"
| "flush (m, out) = out"

definition placeholders :: "string \<Rightarrow> nat list" where
  "placeholders s = flush (foldl lexStep (Code, []) s)"

text \<open>
  Proof vocabulary: a scanner state between tokens, a text that does not begin with a
  digit, and a text that, read from any state between tokens, ends between tokens and
  adds the placeholders \<open>i, \<dots>, j - 1\<close> in this order.
\<close>

fun settled :: "lexMode \<times> nat list \<Rightarrow> bool" where
  "settled (Code, out) = True"
| "settled (Param n, out) = True"
| "settled (m, out) = False"

fun okstart :: "string \<Rightarrow> bool" where
  "okstart [] = True"
| "okstart (c # cs) = (\<not> isDigit c)"

definition emits :: "string \<Rightarrow> nat \<Rightarrow> nat \<Rightarrow> bool" where
  "emits s i j \<longleftrightarrow>
     i \<le> j \<and> okstart s \<and>
     (\<forall>st. settled st \<longrightarrow>
        settled (foldl lexStep st s) \<and> flush (foldl lexStep st s) = flush st @ [i..<j])"

definition plainText :: "string \<Rightarrow> bool" where
  "plainText t \<longleftrightarrow> (\<forall>c \<in> set t. c \<noteq> CHR 0x22 \<and> c \<noteq> CHR 0x27 \<and> c \<noteq> CHR ''$'')"

text \<open>
  The placeholders of row \<open>r\<close> of an upsert with \<open>m\<close> columns whose numbering starts at
  \<open>i\<close>: the block \<open>$(i + r m), \<dots>, $(i + r m + m - 1)\<close> in parentheses.
\<close>

definition rowPlaceholders :: "nat \<Rightarrow> nat \<Rightarrow> nat \<Rightarrow> string" where
  "rowPlaceholders m i r =
     ''('' @ join '', '' (map (\<lambda>k. ''$'' @ showNat k) [i + r * m..<i + r * m + m]) @ '')''"

inductive emitsChain :: "string list \<Rightarrow> nat \<Rightarrow> nat \<Rightarrow> bool" where
  emitsChain_Nil: "emitsChain [] i i"
| emitsChain_Cons: "emits x i k \<Longrightarrow> emitsChain xs k j \<Longrightarrow> emitsChain (x # xs) i j"

section \<open>A filter entry in the words of the specification\<close>

text \<open>
  The entries the specification skips: a value that is \<open>null\<close> or \<open>undefined\<close>, an empty
  array, an array containing a nested array, an object with no keys or one that fails
  the explicit-filter shape check (an operator and a present \<open>value\<close> key).
\<close>

fun specSkipped :: "jsval \<Rightarrow> bool" where
  "specSkipped JUndefined = True"
| "specSkipped JNull = True"
| "specSkipped (JArr xs) = (xs = [] \<or> list_ex isArrayValue xs)"
| "specSkipped (JObj kvs) =
     (kvs = [] \<or> \<not> (truthy (objGet kvs ''op'') \<and> ''value'' \<in> fst ` set kvs))"
| "specSkipped v = False"

text \<open>
  The operator of an entry: an explicit filter has its declared operator if that is one
  of the enumerated set, and no operator (the entry is dropped) otherwise; a list value
  on a path without a comma has \<open>in\<close>; every other entry has \<open>=\<close>.
\<close>

fun specOperator :: "string \<Rightarrow> jsval \<Rightarrow> string option" where
  "specOperator colPath (JObj kvs) =
     (case objGet kvs ''op'' of
        JStr op \<Rightarrow> if op \<in> set filterOpValues then Some op else None
      | _ \<Rightarrow> None)"
| "specOperator colPath (JArr xs) = (if CHR '','' \<in> set colPath then Some ''='' else Some ''in'')"
| "specOperator colPath v = Some ''=''"

text \<open>The compared value: the \<open>value\<close> of an explicit filter, the entry's value otherwise.\<close>

fun specOperand :: "jsval \<Rightarrow> jsval" where
  "specOperand (JObj kvs) = objGet kvs ''value''"
| "specOperand v = v"

text \<open>
  The left-hand side: a comma-separated path is a parenthesized tuple of quoted column
  references, any other path one quoted column reference.
\<close>

definition specColumns :: "string \<Rightarrow> string" where
  "specColumns colPath =
     (if CHR '','' \<in> set colPath
      then ''('' @ join '', '' (map identPath (split CHR '','' colPath)) @ '')''
      else identPath colPath)"

text \<open>
  The right-hand side when the next placeholder is \<open>i\<close>: one placeholder for a scalar, one
  parenthesized group of placeholders for a list, each element bound on its own.
\<close>

fun specRightHandSide :: "jsval \<Rightarrow> nat \<Rightarrow> string" where
  "specRightHandSide (JArr xs) i =
     ''('' @ join '', '' (map (\<lambda>k. ''$'' @ showNat k) [i..<i + length xs]) @ '')''"
| "specRightHandSide v i = ''$'' @ showNat i"

fun specBound :: "jsval \<Rightarrow> jsval list" where
  "specBound (JArr xs) = xs"
| "specBound v = [v]"

definition specEntry ::
  "string \<Rightarrow> jsval \<Rightarrow> string list \<times> jsval list \<times> nat \<Rightarrow> string list \<times> jsval list \<times> nat" where
  "specEntry colPath val st =
     (case st of (statements, vals, i) \<Rightarrow>
        (case specOperator colPath val of
           None \<Rightarrow> st
         | Some op \<Rightarrow>
             if specSkipped val then st
             else (statements @ [specColumns colPath @ '' '' @ op @ '' ''
                                   @ specRightHandSide (specOperand val) i],
                   vals @ specBound (specOperand val),
                   i + length (specBound (specOperand val)))))"

section \<open>Placeholders against values, in the words of the specification\<close>

text \<open>
  The values that an entry binds, in the order of its placeholders: the elements of a
  list, or the one scalar; none for an entry that is dropped.
\<close>

definition specValues :: "string \<Rightarrow> jsval \<Rightarrow> jsval list" where
  "specValues colPath val =
     (case specOperator colPath val of
        None \<Rightarrow> []
      | Some op \<Rightarrow> if specSkipped val then [] else specBound (specOperand val))"

text \<open>The statement of an entry when the next placeholder is \<open>i\<close>; none for an entry that is dropped.\<close>

definition specStatement :: "string \<Rightarrow> jsval \<Rightarrow> nat \<Rightarrow> string option" where
  "specStatement colPath val i =
     (case specOperator colPath val of
        None \<Rightarrow> None
      | Some op \<Rightarrow>
          if specSkipped val then None
          else Some (specColumns colPath @ '' '' @ op @ '' ''
                       @ specRightHandSide (specOperand val) i))"

text \<open>
  The statements of the entries of a group, in their order, when the next placeholder is
  \<open>i\<close>: every entry numbers its placeholders from where the values bound before it end.
\<close>

fun specStatements :: "StringKeyMap \<Rightarrow> nat \<Rightarrow> string list" where
  "specStatements [] i = []"
| "specStatements ((colPath, val) # rest) i =
     (case specStatement colPath val i of None \<Rightarrow> [] | Some s \<Rightarrow> [s])
       @ specStatements rest (i + length (specValues colPath val))"

definition specGroupValues :: "StringKeyMap \<Rightarrow> jsval list" where
  "specGroupValues entries = concat (map (\<lambda>(colPath, val). specValues colPath val) entries)"

text \<open>
  The inclusive statements of the groups, in their order, when the next placeholder is
  \<open>i\<close>: the statements of a group joined by \<open>and\<close>; a group with no statement has none.
\<close>

fun specOrStatements :: "StringKeyMap list \<Rightarrow> nat \<Rightarrow> string list" where
  "specOrStatements [] i = []"
| "specOrStatements (entries # rest) i =
     (if specStatements entries i = [] then [] else [join '' and '' (specStatements entries i)])
       @ specOrStatements rest (i + length (specGroupValues entries))"

text \<open>
  The entries of a group that the compiler reads: the properties of the group under
  their snake-cased names; none when the group has no own property.
\<close>

definition groupEntries :: "JsObject \<Rightarrow> StringKeyMap" where
  "groupEntries flt = (if fst (formatFilter flt) = [] then [] else forIn (formatFilter flt))"

text \<open>The text after the table: nothing, or the \<open>where\<close> clause of the block range and the groups.\<close>

definition specWhere :: "int list \<Rightarrow> string list \<Rightarrow> string" where
  "specWhere blockRange0 orStatements =
     (if orStatements = [] \<and> blockRange0 = [] then []
      else '' where '' @ whereClause (whereGroups blockRange0 orStatements))"

section \<open>Properties of the name normalizer\<close>

lemma toLowerCase_not_upper: "\<not> isUpperLetter (toLowerCase c)"
  by (simp add: toLowerCase_def isUpperLetter_def upperLetters_def lowerLetters_def)

lemma toLowerCase_fixed: "\<not> isUpperLetter c \<Longrightarrow> toLowerCase c = c"
  by (simp add: toLowerCase_def isUpperLetter_def upperLetters_def lowerLetters_def)

lemma decamelize_no_upper: "\<forall>c \<in> set (decamelize s). \<not> isUpperLetter c"
  by (simp add: decamelize_def toLowerCase_not_upper)

lemma removeAcronymLoop_fixed:
  "\<forall>c \<in> set s. \<not> isUpperLetter c \<Longrightarrow> removeAcronymLoop p s = s"
  by (induction s arbitrary: p) (simp_all add: Let_def toLowerCase_fixed)

lemma separateWords_fixed:
  "\<forall>c \<in> set s. \<not> isUpperLetter c \<Longrightarrow> separateWords p s = s"
  by (induction s arbitrary: p) simp_all

lemma map_toLowerCase_fixed:
  "\<forall>c \<in> set s. \<not> isUpperLetter c \<Longrightarrow> map toLowerCase s = s"
  by (induction s) (simp_all add: toLowerCase_fixed)

lemma toSnakeCase_fixed:
  assumes "\<forall>c \<in> set s. \<not> isUpperLetter c"
  shows "toSnakeCase s = s"
  using assms
  by (simp add: toSnakeCase_def decamelize_def removeAcronymFromCamel_def
      removeAcronymLoop_fixed separateWords_fixed map_toLowerCase_fixed)

text \<open>
  Claim C9. The name normalizer \<open>toSnakeCase\<close> (the de-acronym pass followed by the
  decamelization) is idempotent: applying it twice gives what applying it once gives,
  for every input string.
\<close>

theorem toSnakeCase_idempotent: "toSnakeCase (toSnakeCase x) = toSnakeCase x"
proof -
  have "\<forall>c \<in> set (toSnakeCase x). \<not> isUpperLetter c"
    unfolding toSnakeCase_def by (rule decamelize_no_upper)
  then show ?thesis by (rule toSnakeCase_fixed)
qed

lemma upt_add_Suc: "[i..<i + Suc n] = i # [Suc i..<Suc i + n]"
proof -
  have "i < i + Suc n" by simp
  from upt_conv_Cons[OF this] show ?thesis by simp
qed

lemma map_upt_0_Suc: "map f [0..<Suc n] = f 0 # map (\<lambda>r. f (Suc r)) [0..<n]"
proof -
  have "[0..<Suc n] = 0 # map Suc [0..<n]"
    by (simp only: map_Suc_upt upt_conv_Cons[OF zero_less_Suc])
  then show ?thesis by (simp only: list.map map_map comp_def)
qed

lemma upsertEntry_eq:
  "upsertEntry entry cols (ps, bs, i) =
     (ps @ map (\<lambda>k. ''$'' @ showNat k) [i..<i + length cols],
      bs @ map (objGet entry) cols, i + length cols)"
proof (induction cols arbitrary: ps bs i)
  case Nil
  then show ?case by simp
next
  case (Cons c cols)
  have step: "[i..<i + length (c # cols)] = i # [Suc i..<Suc i + length cols]"
    using upt_add_Suc[of i "length cols"] by simp
  have "upsertEntry entry (c # cols) (ps, bs, i) =
        upsertEntry entry cols (ps @ [''$'' @ showNat i], bs @ [objGet entry c], Suc i)"
    by simp
  also have "\<dots> = ((ps @ [''$'' @ showNat i]) @ map (\<lambda>k. ''$'' @ showNat k) [Suc i..<Suc i + length cols],
      (bs @ [objGet entry c]) @ map (objGet entry) cols, Suc i + length cols)"
    by (rule Cons.IH)
  finally show ?case
    by (simp only: step) simp
qed

lemma rowPlaceholders_Suc: "rowPlaceholders m i (Suc r) = rowPlaceholders m (i + m) r"
  by (simp add: rowPlaceholders_def add.assoc add.commute add.left_commute)

lemma upsertData_eq:
  "upsertData cols data (pls, bs, i) =
     (pls @ map (rowPlaceholders (length cols) i) [0..<length data],
      bs @ concat (map (\<lambda>row. map (objGet row) cols) data),
      i + length data * length cols)"
proof (induction data arbitrary: pls bs i)
  case Nil
  then show ?case by simp
next
  case (Cons row data)
  have shift: "map (rowPlaceholders (length cols) i) [0..<length (row # data)] =
      rowPlaceholders (length cols) i 0 #
      map (rowPlaceholders (length cols) (i + length cols)) [0..<length data]"
    by (simp only: length_Cons map_upt_0_Suc rowPlaceholders_Suc)
  have r0: "rowPlaceholders (length cols) i 0 =
      ''('' @ join '', '' (map (\<lambda>k. ''$'' @ showNat k) [i..<i + length cols]) @ '')''"
    by (simp add: rowPlaceholders_def)
  show ?case
    by (simp only: upsertData.simps upsertEntry_eq prod.case Cons.IH shift r0) simp
qed


lemma sort_eq_Nil_iff: "sort xs = [] \<longleftrightarrow> xs = []"
  by (metis length_sort length_0_conv)

lemma nth_concat_rows:
  assumes "r < length rows" "j < length cols"
  shows "concat (map (\<lambda>row. map (f row) cols) rows) ! (r * length cols + j) = f (rows ! r) (cols ! j)"
  using assms
proof (induction rows arbitrary: r)
  case Nil
  then show ?case by simp
next
  case (Cons row rows)
  show ?case
  proof (cases r)
    case 0
    then show ?thesis using Cons.prems by (simp add: nth_append)
  next
    case (Suc r')
    then have "r' < length rows" using Cons.prems by simp
    from Cons.IH[OF this Cons.prems(2)] Suc show ?thesis
      by (simp add: nth_append add.assoc)
  qed
qed

lemma buildUpsertQuery_Inr:
  assumes "buildUpsertQuery table data conflictColumns updateColumns pts ret = Inr q"
  shows "\<exists>first rest. data = first # rest \<and> first \<noteq> [] \<and>
           bindings q = concat (map (\<lambda>row. map (objGet row) (sort (map fst first))) data) \<and>
           (\<exists>suffix. sql q = ''insert into '' @ identPath table @ '' (''
               @ join '', '' (map ident (map toSnakeCase (sort (map fst first)))) @ '')''
               @ '' values ''
               @ join '', '' (map (rowPlaceholders (length first) 1) [0..<length data]) @ suffix)"
proof (cases data)
  case Nil
  then show ?thesis using assms by (simp add: buildUpsertQuery_def)
next
  case (Cons first rest)
  have ne: "first \<noteq> []"
    using assms Cons by (auto simp: buildUpsertQuery_def Let_def sort_eq_Nil_iff)
  then have sne: "sort (map fst first) \<noteq> []" by (simp add: sort_eq_Nil_iff)
  show ?thesis
    using assms sne ne unfolding Cons buildUpsertQuery_def Let_def
    by (auto simp: upsertData_eq split: prod.splits option.splits Returning.splits if_splits)
qed

section \<open>Claims on the upsert compiler\<close>

text \<open>
  Claim C5. For every upsert that returns a payload, the insertion column list is the
  first row's keys sorted lexicographically, then normalized to snake_case and quoted;
  the values clause has one parenthesized block of placeholders for each row, in input
  order, row \<open>r\<close> of \<open>m\<close> columns holding the placeholders \<open>r m + 1, \<dots>, r m + m\<close>;
  and the binding at index \<open>r m + j\<close> (the one placeholder \<open>r m + j + 1\<close> refers to) is
  row \<open>r\<close>'s value under the \<open>j\<close>-th sorted column.
\<close>

theorem buildUpsertQuery_columns_row_major:
  assumes "buildUpsertQuery table data conflictColumns updateColumns pts ret = Inr q"
  shows "data \<noteq> [] \<and>
         (\<exists>suffix.
            sql q = ''insert into '' @ identPath table @ '' (''
                      @ join '', '' (map (\<lambda>k. ident (toSnakeCase k)) (sort (map fst (hd data))))
                      @ '')'' @ '' values ''
                      @ join '', '' (map (rowPlaceholders (length (hd data)) 1) [0..<length data])
                      @ suffix) \<and>
         length (bindings q) = length data * length (hd data) \<and>
         (\<forall>r < length data. \<forall>j < length (hd data).
            bindings q ! (r * length (hd data) + j)
              = objGet (data ! r) (sort (map fst (hd data)) ! j))"
proof -
  from buildUpsertQuery_Inr[OF assms] obtain first rest suffix where
    d: "data = first # rest" and
    b: "bindings q = concat (map (\<lambda>row. map (objGet row) (sort (map fst first))) data)" and
    s: "sql q = ''insert into '' @ identPath table @ '' (''
               @ join '', '' (map ident (map toSnakeCase (sort (map fst first)))) @ '')''
               @ '' values ''
               @ join '', '' (map (rowPlaceholders (length first) 1) [0..<length data]) @ suffix"
    by blast
  have hd: "hd data = first" using d by simp
  have len: "length (sort (map fst first)) = length first" by simp
  have l: "length (bindings q) = length data * length first"
    unfolding b by (induction data) simp_all
  have n: "\<forall>r < length data. \<forall>j < length first.
              bindings q ! (r * length first + j) = objGet (data ! r) (sort (map fst first) ! j)"
    unfolding b using nth_concat_rows[of _ data _ "sort (map fst first)" objGet]
    by (simp only: len) blast
  have "data \<noteq> []" using d by simp
  moreover have "\<exists>suffix.
            sql q = ''insert into '' @ identPath table @ '' (''
                      @ join '', '' (map (\<lambda>k. ident (toSnakeCase k)) (sort (map fst (hd data))))
                      @ '')'' @ '' values ''
                      @ join '', '' (map (rowPlaceholders (length (hd data)) 1) [0..<length data])
                      @ suffix"
    using s by (simp only: hd map_map comp_def) blast
  ultimately show ?thesis using l n by (simp only: hd) blast
qed

theorem buildUpsertQuery_columns_row_major_witness:
  \<open>buildUpsertQuery ''public.users''
      [[(''id'', JNum 1), (''fullName'', JStr ''A'')], [(''id'', JNum 2), (''fullName'', JStr ''B'')]]
      [''id''] [''fullName''] None None
    = Inr \<lparr>schemaName = ''public'', tableName = Some ''users'',
        sql = ''insert into "public"."users" ("full_name", "id") values ($1, $2), ($3, $4) on conflict ("id") do update set "full_name" = excluded."full_name"'',
        bindings = [JStr ''A'', JNum 1, JStr ''B'', JNum 2]\<rparr>
   \<and> [JStr ''A'', JNum 1, JStr ''B'', JNum 2] ! 2 = JStr ''B''\<close>
proof -
  let ?data = "[[(''id'', JNum 1), (''fullName'', JStr ''A'')], [(''id'', JNum 2), (''fullName'', JStr ''B'')]]"
  let ?q = \<open>\<lparr>schemaName = ''public'', tableName = Some ''users'',
        sql = ''insert into "public"."users" ("full_name", "id") values ($1, $2), ($3, $4) on conflict ("id") do update set "full_name" = excluded."full_name"'',
        bindings = [JStr ''A'', JNum 1, JStr ''B'', JNum 2]\<rparr>\<close>
  have h: "buildUpsertQuery ''public.users'' ?data [''id''] [''fullName''] None None = Inr ?q"
    by code_simp
  from buildUpsertQuery_columns_row_major[OF h]
  have A: "\<forall>r < length ?data. \<forall>j < length (hd ?data).
            bindings ?q ! (r * length (hd ?data) + j)
              = objGet (?data ! r) (sort (map fst (hd ?data)) ! j)"
    by (elim conjE)
  have r: "1 < length ?data" and j: "0 < length (hd ?data)" by simp_all
  have v: "objGet (?data ! 1) (sort (map fst (hd ?data)) ! 0) = JStr ''B''" by code_simp
  have k: "1 * length (hd ?data) + 0 = 2" by simp
  from A[rule_format, OF r j] have "bindings ?q ! 2 = JStr ''B''"
    by (simp only: v k)
  then have "[JStr ''A'', JNum 1, JStr ''B'', JNum 2] ! 2 = JStr ''B''"
    by (simp only: QueryPayload.simps)
  with h show ?thesis by (rule conjI)
qed




lemma buildUpsertQuery_returns:
  assumes "first \<noteq> []"
  shows "\<exists>q. buildUpsertQuery table (first # rest) conflictColumns updateColumns pts ret = Inr q"
proof -
  have "sort (map fst first) \<noteq> []" using assms by (simp add: sort_eq_Nil_iff)
  then show ?thesis
    unfolding buildUpsertQuery_def Let_def
    by (simp split: prod.splits option.splits Returning.splits)
qed

lemma buildUpsertQuery2_returns:
  assumes "first \<noteq> []"
  shows "\<exists>q. buildUpsertQuery2 table (first # rest) conflictColumns updateColumns pts ret = Inr q"
proof -
  have "sort (map fst first) \<noteq> []" using assms by (simp add: sort_eq_Nil_iff)
  then show ?thesis
    unfolding buildUpsertQuery2_def Let_def
    by (simp split: prod.splits option.splits Returning.splits)
qed

lemma buildUpsertQuery_guard:
  assumes "buildUpsertQuery table data conflictColumns updateColumns (Some col) ret = Inr q"
    and "updateColumns \<noteq> []" and "col \<noteq> []"
  shows "\<exists>front tail.
           sql q = front @ '' do update set ''
                     @ join '', '' (map (\<lambda>u. ident (toSnakeCase u) @ '' = excluded.''
                                              @ ident (toSnakeCase u)) updateColumns)
                     @ '' where '' @ identPath (join ''.'' [table, col])
                     @ '' <= excluded.'' @ ident col @ tail \<and>
           (tail = [] \<or> (\<exists>cols. tail = '' returning '' @ cols)) \<and>
           (ret = None \<longrightarrow> tail = [])"
proof (cases data)
  case Nil
  then show ?thesis using assms by (simp add: buildUpsertQuery_def)
next
  case (Cons first rest)
  define tail where "tail =
     (case ret of
        None \<Rightarrow> []
      | Some (ReturningString r) \<Rightarrow>
          if r = [] then []
          else '' returning '' @ (if r = ''*'' then ''*''
                                  else join '', '' (map ident (map toSnakeCase [r])))
      | Some (ReturningArray rs) \<Rightarrow>
          '' returning '' @ join '', '' (map ident (map toSnakeCase rs)))"
  define front where "front =
     ''insert into '' @ identPath table @ '' (''
       @ join '', '' (map ident (map toSnakeCase (sort (map fst first)))) @ '')''
       @ '' values ''
       @ join '', '' (fst (upsertData (sort (map fst first)) data ([], [], 1)))
       @ '' on conflict ('' @ join '', '' (map ident (map toSnakeCase conflictColumns)) @ '')''"
  have "sql q = front @ '' do update set ''
                     @ join '', '' (map (\<lambda>u. ident (toSnakeCase u) @ '' = excluded.''
                                              @ ident (toSnakeCase u)) updateColumns)
                     @ '' where '' @ identPath (join ''.'' [table, col])
                     @ '' <= excluded.'' @ ident col @ tail"
    using assms unfolding Cons buildUpsertQuery_def Let_def front_def tail_def
    by (auto simp: comp_def split: prod.splits option.splits Returning.splits if_splits)
  moreover have "tail = [] \<or> (\<exists>cols. tail = '' returning '' @ cols)"
    unfolding tail_def by (simp split: option.splits Returning.splits)
  moreover have "ret = None \<longrightarrow> tail = []"
    unfolding tail_def by simp
  ultimately show ?thesis by blast
qed

lemma buildUpsertQuery2_guard:
  assumes "buildUpsertQuery2 table data conflictColumns updateColumns (Some col) ret = Inr q"
    and "updateColumns \<noteq> []" and "col \<noteq> []"
  shows "\<exists>front tail.
           fst q = front @ '' do update set ''
                     @ join '', '' (map (\<lambda>u. ident (toSnakeCase u) @ '' = excluded.''
                                              @ ident (toSnakeCase u)) updateColumns)
                     @ '' where '' @ identPath (join ''.'' [table, col])
                     @ '' >= excluded.'' @ ident col @ tail \<and>
           (tail = [] \<or> (\<exists>cols. tail = '' returning '' @ cols)) \<and>
           (ret = None \<longrightarrow> tail = [])"
proof (cases data)
  case Nil
  then show ?thesis using assms by (simp add: buildUpsertQuery2_def)
next
  case (Cons first rest)
  define tail where "tail =
     (case ret of
        None \<Rightarrow> []
      | Some (ReturningString r) \<Rightarrow>
          if r = [] then []
          else '' returning '' @ (if r = ''*'' then ''*''
                                  else join '', '' (map ident (map toSnakeCase [r])))
      | Some (ReturningArray rs) \<Rightarrow>
          '' returning '' @ join '', '' (map ident (map toSnakeCase rs)))"
  define front where "front =
     ''insert into '' @ identPath table @ '' (''
       @ join '', '' (map ident (map toSnakeCase (sort (map fst first)))) @ '')''
       @ '' values ''
       @ join '', '' (fst (upsertData (sort (map fst first)) data ([], [], 1)))
       @ '' on conflict ('' @ join '', '' (map ident (map toSnakeCase conflictColumns)) @ '')''"
  have "fst q = front @ '' do update set ''
                     @ join '', '' (map (\<lambda>u. ident (toSnakeCase u) @ '' = excluded.''
                                              @ ident (toSnakeCase u)) updateColumns)
                     @ '' where '' @ identPath (join ''.'' [table, col])
                     @ '' >= excluded.'' @ ident col @ tail"
    using assms unfolding Cons buildUpsertQuery2_def Let_def front_def tail_def
    by (auto simp: comp_def split: prod.splits option.splits Returning.splits if_splits)
  moreover have "tail = [] \<or> (\<exists>cols. tail = '' returning '' @ cols)"
    unfolding tail_def by (simp split: option.splits Returning.splits)
  moreover have "ret = None \<longrightarrow> tail = []"
    unfolding tail_def by simp
  ultimately show ?thesis by blast
qed

text \<open>
  Claim C6. For every upsert with non-empty \<open>updateColumns\<close> and a
  \<open>primaryTimestampColumn\<close> supplied (the name of a column, a non-empty string), on rows
  whose first has a key, the compilation returns, and its statement continues the
  \<open>do update set\<close> clause with a \<open>where\<close> guard that compares the column, qualified by
  the table, with \<open>excluded.<column>\<close>, every segment quoted; only the \<open>returning\<close>
  clause can follow the guard. Both variants of the function in the source do so: the
  first compares with \<open><=\<close>, the second with \<open>>=\<close>.
\<close>

theorem buildUpsertQuery_timestamp_guard:
  assumes "first \<noteq> []" and "updateColumns \<noteq> []" and "col \<noteq> []"
  shows "(\<exists>q front tail.
            buildUpsertQuery table (first # rest) conflictColumns updateColumns (Some col) ret
              = Inr q \<and>
            sql q = front @ '' do update set ''
                      @ join '', '' (map (\<lambda>u. ident (toSnakeCase u) @ '' = excluded.''
                                               @ ident (toSnakeCase u)) updateColumns)
                      @ '' where '' @ identPath (join ''.'' [table, col])
                      @ '' <= excluded.'' @ ident col @ tail \<and>
            (tail = [] \<or> (\<exists>cols. tail = '' returning '' @ cols)) \<and>
            (ret = None \<longrightarrow> tail = [])) \<and>
         (\<exists>sql2 bindings2 front tail.
            buildUpsertQuery2 table (first # rest) conflictColumns updateColumns (Some col) ret
              = Inr (sql2, bindings2) \<and>
            sql2 = front @ '' do update set ''
                     @ join '', '' (map (\<lambda>u. ident (toSnakeCase u) @ '' = excluded.''
                                              @ ident (toSnakeCase u)) updateColumns)
                     @ '' where '' @ identPath (join ''.'' [table, col])
                     @ '' >= excluded.'' @ ident col @ tail \<and>
            (tail = [] \<or> (\<exists>cols. tail = '' returning '' @ cols)) \<and>
            (ret = None \<longrightarrow> tail = []))"
proof
  from buildUpsertQuery_returns[OF assms(1)] obtain q where
    q: "buildUpsertQuery table (first # rest) conflictColumns updateColumns (Some col) ret = Inr q"
    by blast
  from buildUpsertQuery_guard[OF q assms(2,3)] q
  show "\<exists>q front tail.
            buildUpsertQuery table (first # rest) conflictColumns updateColumns (Some col) ret
              = Inr q \<and>
            sql q = front @ '' do update set ''
                      @ join '', '' (map (\<lambda>u. ident (toSnakeCase u) @ '' = excluded.''
                                               @ ident (toSnakeCase u)) updateColumns)
                      @ '' where '' @ identPath (join ''.'' [table, col])
                      @ '' <= excluded.'' @ ident col @ tail \<and>
            (tail = [] \<or> (\<exists>cols. tail = '' returning '' @ cols)) \<and>
            (ret = None \<longrightarrow> tail = [])"
    by blast
next
  from buildUpsertQuery2_returns[OF assms(1)] obtain q where
    q: "buildUpsertQuery2 table (first # rest) conflictColumns updateColumns (Some col) ret = Inr q"
    by blast
  obtain sql2 bindings2 where p: "q = (sql2, bindings2)" by (cases q)
  from buildUpsertQuery2_guard[OF q assms(2,3)] q p
  show "\<exists>sql2 bindings2 front tail.
            buildUpsertQuery2 table (first # rest) conflictColumns updateColumns (Some col) ret
              = Inr (sql2, bindings2) \<and>
            sql2 = front @ '' do update set ''
                     @ join '', '' (map (\<lambda>u. ident (toSnakeCase u) @ '' = excluded.''
                                              @ ident (toSnakeCase u)) updateColumns)
                     @ '' where '' @ identPath (join ''.'' [table, col])
                     @ '' >= excluded.'' @ ident col @ tail \<and>
            (tail = [] \<or> (\<exists>cols. tail = '' returning '' @ cols)) \<and>
            (ret = None \<longrightarrow> tail = [])"
    by auto
qed

theorem buildUpsertQuery_timestamp_guard_witness:
  \<open>[(''id'', JNum 1)] \<noteq> [] \<and> [''id''] \<noteq> [] \<and> ''ts'' \<noteq> [] \<and>
   buildUpsertQuery ''public.users'' [[(''id'', JNum 1)]] [''id''] [''id''] (Some ''ts'') None
     = Inr \<lparr>schemaName = ''public'', tableName = Some ''users'',
         sql = ''insert into "public"."users" ("id") values ($1) on conflict ("id") do update set "id" = excluded."id" where "public"."users"."ts" <= excluded."ts"'',
         bindings = [JNum 1]\<rparr> \<and>
   buildUpsertQuery2 ''public.users'' [[(''id'', JNum 1)]] [''id''] [''id''] (Some ''ts'') None
     = Inr (''insert into "public"."users" ("id") values ($1) on conflict ("id") do update set "id" = excluded."id" where "public"."users"."ts" >= excluded."ts"'',
            [JNum 1]) \<and>
   (\<exists>front.
      ''insert into "public"."users" ("id") values ($1) on conflict ("id") do update set "id" = excluded."id" where "public"."users"."ts" <= excluded."ts"''
        = front @ '' do update set ''
            @ join '', '' (map (\<lambda>u. ident (toSnakeCase u) @ '' = excluded.''
                                     @ ident (toSnakeCase u)) [''id''])
            @ '' where '' @ identPath (join ''.'' [''public.users'', ''ts''])
            @ '' <= excluded.'' @ ident ''ts'') \<and>
   (\<exists>front.
      ''insert into "public"."users" ("id") values ($1) on conflict ("id") do update set "id" = excluded."id" where "public"."users"."ts" >= excluded."ts"''
        = front @ '' do update set ''
            @ join '', '' (map (\<lambda>u. ident (toSnakeCase u) @ '' = excluded.''
                                     @ ident (toSnakeCase u)) [''id''])
            @ '' where '' @ identPath (join ''.'' [''public.users'', ''ts''])
            @ '' >= excluded.'' @ ident ''ts'')\<close>
proof -
  let ?s1 = \<open>''insert into "public"."users" ("id") values ($1) on conflict ("id") do update set "id" = excluded."id" where "public"."users"."ts" <= excluded."ts"''\<close>
  let ?s2 = \<open>''insert into "public"."users" ("id") values ($1) on conflict ("id") do update set "id" = excluded."id" where "public"."users"."ts" >= excluded."ts"''\<close>
  let ?q = \<open>\<lparr>schemaName = ''public'', tableName = Some ''users'', sql = ?s1, bindings = [JNum 1]\<rparr>\<close>
  have h1: "buildUpsertQuery ''public.users'' [[(''id'', JNum 1)]] [''id''] [''id''] (Some ''ts'') None
             = Inr ?q"
    by code_simp
  have h2: "buildUpsertQuery2 ''public.users'' [[(''id'', JNum 1)]] [''id''] [''id''] (Some ''ts'') None
             = Inr (?s2, [JNum 1])"
    by code_simp
  have f: "[(''id'', JNum 1)] \<noteq> []" and u: "[''id''] \<noteq> ([] :: string list)" and c: "''ts'' \<noteq> []"
    by simp_all
  note t = buildUpsertQuery_timestamp_guard[OF f u c, of "''public.users''" "[]" "[''id'']" None]
  from t h1 have e1: "\<exists>front.
      ?s1 = front @ '' do update set ''
            @ join '', '' (map (\<lambda>u. ident (toSnakeCase u) @ '' = excluded.''
                                     @ ident (toSnakeCase u)) [''id''])
            @ '' where '' @ identPath (join ''.'' [''public.users'', ''ts''])
            @ '' <= excluded.'' @ ident ''ts''"
    by auto
  from t h2 have e2: "\<exists>front.
      ?s2 = front @ '' do update set ''
            @ join '', '' (map (\<lambda>u. ident (toSnakeCase u) @ '' = excluded.''
                                     @ ident (toSnakeCase u)) [''id''])
            @ '' where '' @ identPath (join ''.'' [''public.users'', ''ts''])
            @ '' >= excluded.'' @ ident ''ts''"
    by auto
  from f u c h1 h2 e1 e2 show ?thesis by (simp only: simp_thms)
qed

section \<open>Claims on the chain schema router\<close>






text \<open>
  A chain id that is no key of the chain table but the name of a member that the table,
  a plain object, inherits: the router takes the member for the schema.
\<close>

lemma buildSelectQuery_inherited_chainId_option:
  \<open>buildSelectQuery ''spec'' ''chainId'' ''spec.users'' (FiltersArray [])
      (noOptions\<lparr>chainId := Some ''constructor''\<rparr>)
     = Inr \<lparr>schemaName = ''function Object() { [native code] }'', tableName = Some ''users'',
         sql = ''select * from "function Object() { [native code] }"."users"'',
         bindings = []\<rparr>\<close>
  by code_simp




text \<open>
  Claim C3, as amended. For a select against the reserved logical schema compiled
  without \<open>options.chainId\<close>, whose filter groups are non-empty and whose first group
  carries a chain-id value for which the chain table yields a schema, the compilation
  fails with \<open>InconsistentChainIdAcrossFilterGroups\<close> whenever another group carries a
  different value for the chain-id property.
\<close>

theorem buildSelectQuery_inconsistent_chain_ids:
  assumes "splitTable table = (SPEC_SCHEMA, tbl)"
    and "chainId options = None \<or> chainId options = Some []"
    and "truthyGroups filters = first # rest"
    and "truthy (objGet first CHAIN_ID_PROPERTY)"
    and "jsToString (objGet first CHAIN_ID_PROPERTY) = Some cidText"
    and "schemaForChainIdAt cidText = Some chainSchema"
    and "g \<in> set rest"
    and "objGet g CHAIN_ID_PROPERTY \<noteq> objGet first CHAIN_ID_PROPERTY"
  shows "buildSelectQuery SPEC_SCHEMA CHAIN_ID_PROPERTY table filters options
           = Inl InconsistentChainIdAcrossFilterGroups"
proof -
  have own: "CHAIN_ID_PROPERTY \<in> fst ` set first"
  proof (rule ccontr)
    assume "CHAIN_ID_PROPERTY \<notin> fst ` set first"
    then have "map_of first CHAIN_ID_PROPERTY = None" by (simp add: map_of_eq_None_iff)
    then have "objGet first CHAIN_ID_PROPERTY = JUndefined" by (simp add: objGet_def)
    with assms(4) show False by simp
  qed
  have "\<not> list_all (\<lambda>f. strictEquals (objGet f CHAIN_ID_PROPERTY) (objGet first CHAIN_ID_PROPERTY)) rest"
    using assms(7,8) by (auto simp: list_all_iff strictEquals_def)
  then have "detectSpecSchemaQuery SPEC_SCHEMA CHAIN_ID_PROPERTY table (first # rest) options
               = Inl InconsistentChainIdAcrossFilterGroups"
    using assms(1,2,4,5,6) own by (auto simp: detectSpecSchemaQuery_def Let_def)
  then show ?thesis by (simp add: buildSelectQuery_def Let_def assms(3))
qed

theorem buildSelectQuery_inconsistent_chain_ids_witness:
  "splitTable ''spec.users'' = (''spec'', Some ''users'') \<and>
   chainId noOptions = None \<and>
   truthyGroups (FiltersArray [Some [(''chainId'', JStr ''5'')], Some [(''chainId'', JStr ''1'')]])
     = [(''chainId'', JStr ''5'')] # [[(''chainId'', JStr ''1'')]] \<and>
   truthy (objGet [(''chainId'', JStr ''5'')] ''chainId'') \<and>
   jsToString (objGet [(''chainId'', JStr ''5'')] ''chainId'') = Some ''5'' \<and>
   schemaForChainIdAt ''5'' = Some ''goerli'' \<and>
   [(''chainId'', JStr ''1'')] \<in> set [[(''chainId'', JStr ''1'')]] \<and>
   objGet [(''chainId'', JStr ''1'')] ''chainId'' \<noteq> objGet [(''chainId'', JStr ''5'')] ''chainId'' \<and>
   buildSelectQuery ''spec'' ''chainId'' ''spec.users''
       (FiltersArray [Some [(''chainId'', JStr ''5'')], Some [(''chainId'', JStr ''1'')]]) noOptions
     = Inl InconsistentChainIdAcrossFilterGroups"
proof -
  have a1: "splitTable ''spec.users'' = (''spec'', Some ''users'')" by code_simp
  have a2: "chainId noOptions = None \<or> chainId noOptions = Some []" by (simp add: noOptions_def)
  have a3: "truthyGroups (FiltersArray [Some [(''chainId'', JStr ''5'')], Some [(''chainId'', JStr ''1'')]])
     = [(''chainId'', JStr ''5'')] # [[(''chainId'', JStr ''1'')]]" by simp
  have a4: "truthy (objGet [(''chainId'', JStr ''5'')] ''chainId'')" by (simp add: objGet_def)
  have a5: "jsToString (objGet [(''chainId'', JStr ''5'')] ''chainId'') = Some ''5''"
    by (simp add: objGet_def)
  have a6: "schemaForChainIdAt ''5'' = Some ''goerli''" by code_simp
  have a7: "[(''chainId'', JStr ''1'')] \<in> set [[(''chainId'', JStr ''1'')]]" by simp
  have a8: "objGet [(''chainId'', JStr ''1'')] ''chainId'' \<noteq> objGet [(''chainId'', JStr ''5'')] ''chainId''"
    by (simp add: objGet_def)
  have a9: "chainId noOptions = None" by (simp add: noOptions_def)
  from buildSelectQuery_inconsistent_chain_ids[OF a1 a2 a3 a4 a5 a6 a7 a8] a1 a9 a3 a4 a5 a6 a7 a8
  show ?thesis by blast
qed

theorem buildSelectQuery_unknown_first_chain_id_counterexample:
  \<open>buildSelectQuery ''spec'' ''chainId'' ''spec.users''
       (FiltersArray [Some [(''chainId'', JStr ''999'')], Some [(''chainId'', JStr ''1'')]]) noOptions
     = Inr \<lparr>schemaName = ''ethereum'', tableName = Some ''blocks'',
         sql = ''select * from "ethereum"."blocks" where "number" = $1'',
         bindings = [JNum (- 1)]\<rparr>\<close>
  by code_simp

subsection \<open>The copy of the groups\<close>

lemma map_of_objSet:
  "key \<in> fst ` set own \<Longrightarrow> map_of (objSet own key v) = (map_of own)(key \<mapsto> v)"
proof (induction own)
  case Nil
  then show ?case by simp
next
  case (Cons e own)
  obtain k w where e: "e = (k, w)" by (cases e)
  show ?case
  proof (cases "k = key")
    case True
    with e show ?thesis by (auto simp: fun_eq_iff)
  next
    case False
    with Cons e have "map_of (objSet own key v) = (map_of own)(key \<mapsto> v)" by auto
    with False e show ?thesis by (auto simp: fun_eq_iff)
  qed
qed

lemma map_of_insertIndex:
  "key \<notin> fst ` set own \<Longrightarrow> map_of (insertIndex own key v) = (map_of own)(key \<mapsto> v)"
proof (induction own)
  case Nil
  then show ?case by simp
next
  case (Cons e own)
  obtain k w where e: "e = (k, w)" by (cases e)
  from Cons.prems e have ne: "k \<noteq> key" and rest: "key \<notin> fst ` set own" by auto
  from Cons.IH[OF rest] ne e show ?case by (auto simp: fun_eq_iff)
qed

lemma map_of_defineProperty:
  assumes "key \<notin> fst ` set own"
  shows "map_of (defineProperty own key v) = (map_of own)(key \<mapsto> v)"
proof (cases "isArrayIndex key")
  case True
  then show ?thesis using map_of_insertIndex[OF assms] by (simp add: defineProperty_def)
next
  case False
  have "map_of own key = None" using assms by (simp add: map_of_eq_None_iff)
  then have "map_of (own @ [(key, v)]) = (map_of own)(key \<mapsto> v)"
    by (auto simp: fun_eq_iff map_add_def split: option.splits)
  with False show ?thesis by (simp add: defineProperty_def)
qed

lemma assign_plain:
  assumes "key \<noteq> ''__proto__''"
  shows "snd (assign (own, p) key v) = p \<and>
         map_of (fst (assign (own, p) key v)) = (map_of own)(key \<mapsto> v)"
  using assms
  by (simp add: assign_def map_of_objSet map_of_defineProperty)

lemma copyWithout_plain:
  assumes "''__proto__'' \<notin> fst ` set flt"
  shows "snd (foldl (\<lambda>newFilter (key, v). if key = CHAIN_ID_PROPERTY then newFilter
                                           else assign newFilter key v) (own, p) flt) = p \<and>
         map_of (fst (foldl (\<lambda>newFilter (key, v). if key = CHAIN_ID_PROPERTY then newFilter
                                                  else assign newFilter key v) (own, p) flt))
           = map_of own ++ map_of (rev (filter (\<lambda>(key, v). key \<noteq> CHAIN_ID_PROPERTY) flt))"
  using assms
proof (induction flt arbitrary: own p)
  case Nil
  show ?case by simp
next
  case (Cons e flt)
  obtain k w where e: "e = (k, w)" by (cases e)
  from Cons.prems e have k: "k \<noteq> ''__proto__''" and rest: "''__proto__'' \<notin> fst ` set flt"
    by auto
  show ?case
  proof (cases "k = CHAIN_ID_PROPERTY")
    case True
    with Cons.IH[OF rest, of own p] e show ?thesis by simp
  next
    case False
    obtain own' p' where a: "assign (own, p) k w = (own', p')" by (cases "assign (own, p) k w")
    from assign_plain[OF k, of own p w] a have p': "p' = p"
      and own': "map_of own' = (map_of own)(k \<mapsto> w)" by simp_all
    from Cons.IH[OF rest, of own' p'] a e False p' own' show ?thesis
      by (simp add: map_add_def fun_eq_iff split: option.splits)
  qed
qed

text \<open>
  What the router does to a group that has no own property named \<open>__proto__\<close> (and
  distinct keys): the copy has the prototype of a plain object, no chain-id property,
  and every other key with its value.
\<close>

lemma copyWithout_frame:
  assumes "''__proto__'' \<notin> fst ` set flt" and "distinct (map fst flt)"
  shows "snd (copyWithout CHAIN_ID_PROPERTY flt) = ObjectPrototype \<and>
         map_of (fst (copyWithout CHAIN_ID_PROPERTY flt)) CHAIN_ID_PROPERTY = None \<and>
         (\<forall>key. key \<noteq> CHAIN_ID_PROPERTY \<longrightarrow>
            map_of (fst (copyWithout CHAIN_ID_PROPERTY flt)) key = map_of flt key)"
proof -
  let ?kept = "filter (\<lambda>(key, v). key \<noteq> CHAIN_ID_PROPERTY) flt"
  have d: "distinct (map fst ?kept)" using assms(2) by (simp add: distinct_map_filter)
  have r: "map_of (rev ?kept) = map_of ?kept"
    using d by (simp add: map_of_inject_set distinct_rev rev_map[symmetric])
  from copyWithout_plain[OF assms(1), of CHAIN_ID_PROPERTY "[]" ObjectPrototype]
  have p: "snd (copyWithout CHAIN_ID_PROPERTY flt) = ObjectPrototype"
    and m: "map_of (fst (copyWithout CHAIN_ID_PROPERTY flt)) = map_of ?kept"
    unfolding copyWithout_def by (simp_all add: r)
  have none: "map_of ?kept CHAIN_ID_PROPERTY = None"
    by (induction flt) auto
  have same: "key \<noteq> CHAIN_ID_PROPERTY \<Longrightarrow> map_of ?kept key = map_of flt key" for key
    by (induction flt) auto
  from p m none same show ?thesis by simp
qed

lemma detectSpecSchemaQuery_strips_groups:
  assumes "splitTable table = (SPEC_SCHEMA, tbl)"
    and "chainId options = None \<or> chainId options = Some []"
    and "detectSpecSchemaQuery SPEC_SCHEMA CHAIN_ID_PROPERTY table (first # rest) options
           = Inr (table', filters')"
    and "jsToString (objGet first CHAIN_ID_PROPERTY) = Some cidText"
    and "map_of schemaForChainId cidText = Some chainSchema"
  shows "table' = chainSchema @ ''.'' @ orEmpty tbl \<and>
         filters' = map (copyWithout CHAIN_ID_PROPERTY) (first # rest)"
proof -
  have s: "schemaForChainIdAt cidText = Some chainSchema"
    using assms(5) by (simp add: schemaForChainIdAt_def)
  have u: "map_of schemaForChainId ''undefined'' = None" by code_simp
  have own: "CHAIN_ID_PROPERTY \<in> fst ` set first"
  proof (rule ccontr)
    assume "CHAIN_ID_PROPERTY \<notin> fst ` set first"
    then have "map_of first CHAIN_ID_PROPERTY = None" by (simp add: map_of_eq_None_iff)
    then have "objGet first CHAIN_ID_PROPERTY = JUndefined" by (simp add: objGet_def)
    with assms(4) have "cidText = ''undefined''" by simp
    with assms(5) u show False by simp
  qed
  show ?thesis
    using assms(1-4) s own
    by (auto simp: detectSpecSchemaQuery_def Let_def orEmpty_def split: if_splits)
qed

text \<open>
  A chain id of the first group that is the name of an inherited member of the chain
  table: the router takes the member for the schema here as well.
\<close>

lemma buildSelectQuery_inherited_chain_id_filter:
  \<open>buildSelectQuery ''spec'' ''chainId'' ''spec.users''
      (FiltersMap [(''chainId'', JStr ''toString''), (''a'', JNum 1)]) noOptions
     = Inr \<lparr>schemaName = ''function toString() { [native code] }'', tableName = Some ''users'',
         sql = ''select * from "function toString() { [native code] }"."users" where "a" = $1'',
         bindings = [JNum 1]\<rparr>\<close>
  by code_simp

text \<open>
  An own property \<open>__proto__\<close> whose value is an object becomes the prototype of the
  copy, and the properties of that object are compiled as filters of the group.
\<close>

lemma buildSelectQuery_proto_key_object:
  \<open>buildSelectQuery ''spec'' ''chainId'' ''spec.users''
      (FiltersMap [(''chainId'', JStr ''1''), (''__proto__'', JObj [(''id'', JNum 7)])]) noOptions
     = Inr \<lparr>schemaName = ''ethereum'', tableName = Some ''users'',
         sql = ''select * from "ethereum"."users" where "id" = $1'',
         bindings = [JNum 7]\<rparr>\<close>
  by code_simp

text \<open>
  Claim C7. When the router takes the chain id from the filter groups and succeeds, it
  is to remove the chain-id property from every group and to leave every other key and
  value of every group as it was. The copy \<open>newFilter[key] = filter[key]\<close> does so for
  every key (\<open>detectSpecSchemaQuery_strips_groups\<close>, \<open>copyWithout_frame\<close>) but an own
  property named \<open>__proto__\<close>: the assignment reaches the accessor of
  \<open>Object.prototype\<close> and creates no property, so the key and its value are gone from
  the group that the router returns.
\<close>

theorem detectSpecSchemaQuery_drops_proto_key:
  "detectSpecSchemaQuery ''spec'' ''chainId'' ''spec.users''
      [[(''chainId'', JStr ''1''), (''__proto__'', JNum 5), (''id'', JNum 7)]] noOptions
     = Inr (''ethereum.users'', [([(''id'', JNum 7)], ObjectPrototype)])"
  by code_simp

section \<open>The scanner on the pieces of a statement\<close>

lemma digitOf_digit:
  assumes "d < 10"
  shows "isDigit (digitOf d) \<and> digitValue (digitOf d) = d"
proof -
  from assms have "d \<in> {0, 1, 2, 3, 4, 5, 6, 7, 8, 9}" by auto
  then show ?thesis
    by (auto simp: isDigit_def digitOf_def digitValue_def digitChars_def upt_rec)
qed

lemma isDigit_plain:
  "isDigit c \<Longrightarrow> c \<noteq> CHR 0x22 \<and> c \<noteq> CHR 0x27 \<and> c \<noteq> CHR ''$''"
  by (auto simp: isDigit_def digitChars_def)

lemma showNat_digits: "\<forall>c \<in> set (showNat n). isDigit c"
proof (induction n rule: showNat.induct)
  case (1 n)
  show ?case
  proof (cases "n < 10")
    case True
    then show ?thesis by (simp add: showNat.simps[of n] digitOf_digit)
  next
    case False
    have "n mod 10 < 10" by simp
    then have "isDigit (digitOf (n mod 10))" by (simp only: digitOf_digit)
    with False 1 show ?thesis by (simp add: showNat.simps[of n])
  qed
qed

lemma lex_showNat: "foldl lexStep (Dollar, out) (showNat n) = (Param n, out)"
proof (induction n rule: showNat.induct)
  case (1 n)
  show ?case
  proof (cases "n < 10")
    case True
    then show ?thesis by (simp add: showNat.simps[of n] digitOf_digit)
  next
    case False
    have m: "n mod 10 < 10" by simp
    have "foldl lexStep (Dollar, out) (showNat n)
            = lexStep (foldl lexStep (Dollar, out) (showNat (n div 10))) (digitOf (n mod 10))"
      using False by (simp add: showNat.simps[of n])
    also have "\<dots> = lexStep (Param (n div 10), out) (digitOf (n mod 10))"
      using 1 False by simp
    also have "\<dots> = (Param (10 * (n div 10) + n mod 10), out)"
      using digitOf_digit[OF m] by simp
    finally show ?thesis by simp
  qed
qed

lemma plainText_append [simp]: "plainText (a @ b) \<longleftrightarrow> plainText a \<and> plainText b"
  by (auto simp: plainText_def)

lemma plainText_Cons [simp]:
  "plainText (c # cs) \<longleftrightarrow> c \<noteq> CHR 0x22 \<and> c \<noteq> CHR 0x27 \<and> c \<noteq> CHR ''$'' \<and> plainText cs"
  by (auto simp: plainText_def)

lemma plainText_Nil [simp]: "plainText []"
  by (simp add: plainText_def)

lemma plainText_showNat: "plainText (showNat n)"
  using showNat_digits[of n] isDigit_plain by (auto simp: plainText_def)

lemma plainText_literal: "plainText (literal n)"
  by (simp add: literal_def showInt_def plainText_showNat)

lemma lex_plain_code: "plainText t \<Longrightarrow> foldl lexStep (Code, out) t = (Code, out)"
  by (induction t) (simp_all add: codeStep_def)

lemma lex_settled_nondigit:
  assumes "settled st" and "\<not> isDigit c"
  shows "lexStep st c = codeStep c (flush st)"
  using assms by (cases st rule: settled.cases) simp_all

lemma emits_Nil [simp]: "emits [] i i"
  by (simp add: emits_def)

lemma emitsD:
  assumes "emits s i j" and "settled st"
  shows "settled (foldl lexStep st s)" and "flush (foldl lexStep st s) = flush st @ [i..<j]"
  using assms unfolding emits_def by blast+

lemma emitsI:
  assumes "i \<le> j" and "okstart s"
    and "\<And>st. settled st \<Longrightarrow>
           settled (foldl lexStep st s) \<and> flush (foldl lexStep st s) = flush st @ [i..<j]"
  shows "emits s i j"
  using assms unfolding emits_def by blast

lemma emits_le: "emits s i j \<Longrightarrow> i \<le> j"
  by (simp add: emits_def)

lemma emits_okstart: "emits s i j \<Longrightarrow> okstart s"
  by (simp add: emits_def)

lemma emits_plain:
  assumes "plainText t" and "okstart t"
  shows "emits t i i"
proof (cases t)
  case Nil
  then show ?thesis by simp
next
  case (Cons c cs)
  with assms have c: "\<not> isDigit c" "c \<noteq> CHR 0x22" "c \<noteq> CHR 0x27" "c \<noteq> CHR ''$''"
    and cs: "plainText cs" by simp_all
  have "foldl lexStep st t = (Code, flush st)" if "settled st" for st
  proof -
    have "lexStep st c = (Code, flush st)"
      using lex_settled_nondigit[OF that c(1)] c by (simp add: codeStep_def)
    then show ?thesis using Cons lex_plain_code[OF cs] by simp
  qed
  then show ?thesis using assms(2) by (intro emitsI) simp_all
qed

lemma emits_append:
  assumes "emits a i j" and "emits b j k"
  shows "emits (a @ b) i k"
proof -
  have le: "i \<le> j" "j \<le> k" using assms by (simp_all add: emits_le)
  then have upt: "[i..<j] @ [j..<k] = [i..<k]"
    by (metis le_Suc_ex upt_add_eq_append)
  have ok: "okstart (a @ b)"
  proof (cases a)
    case Nil
    then show ?thesis using assms(2) by (simp add: emits_okstart)
  next
    case (Cons c cs)
    then show ?thesis using emits_okstart[OF assms(1)] by simp
  qed
  have "settled (foldl lexStep st (a @ b)) \<and>
        flush (foldl lexStep st (a @ b)) = flush st @ [i..<k]" if "settled st" for st
  proof -
    note 1 = emitsD[OF assms(1) that]
    note 2 = emitsD[OF assms(2) 1(1)]
    from 1 2 upt show ?thesis by simp
  qed
  with le ok show ?thesis by (intro emitsI) simp_all
qed

lemma lex_quoted_body:
  "foldl lexStep (Quoted, out) (concat (map (\<lambda>c. if c = CHR 0x22 then [c, c] else [c]) v))
     = (Quoted, out)"
  by (induction v) (simp_all add: codeStep_def)

lemma emits_ident: "emits (ident v) i i"
proof -
  have "foldl lexStep st (ident v) = (Code, flush st)" if "settled st" for st
  proof -
    have d: "\<not> isDigit (CHR 0x22)" by (simp add: isDigit_def digitChars_def)
    have "lexStep st (CHR 0x22) = (Quoted, flush st)"
      using lex_settled_nondigit[OF that d] by (simp add: codeStep_def)
    then show ?thesis by (simp add: ident_def lex_quoted_body)
  qed
  moreover have "okstart (ident v)" by (simp add: ident_def isDigit_def digitChars_def)
  ultimately show ?thesis by (intro emitsI) simp_all
qed

lemma emits_placeholder: "emits (''$'' @ showNat n) n (Suc n)"
proof -
  have "foldl lexStep st (''$'' @ showNat n) = (Param n, flush st)" if "settled st" for st
  proof -
    have d: "\<not> isDigit (CHR ''$'')" by (simp add: isDigit_def digitChars_def)
    have "lexStep st (CHR ''$'') = (Dollar, flush st)"
      using lex_settled_nondigit[OF that d] by (simp add: codeStep_def)
    then show ?thesis by (simp add: lex_showNat)
  qed
  moreover have "okstart (''$'' @ showNat n)" by (simp add: isDigit_def digitChars_def)
  ultimately show ?thesis by (intro emitsI) simp_all
qed

lemma emits_join_same:
  assumes "\<forall>x \<in> set xs. emits x i i" and "emits sep i i"
  shows "emits (join sep xs) i i"
  using assms
proof (induction sep xs rule: join.induct)
  case (1 sep)
  then show ?case by simp
next
  case (2 sep x)
  then show ?case by simp
next
  case (3 sep x y ys)
  then have r: "emits (join sep (y # ys)) i i" by simp
  from 3 have x: "emits x i i" by simp
  from emits_append[OF x emits_append[OF 3(3) r]] show ?case by simp
qed

lemma emits_identPath: "emits (identPath v) i i"
proof -
  have "emits ''.'' i i" by (rule emits_plain) (simp_all add: isDigit_def digitChars_def)
  then show ?thesis unfolding identPath_def
    by (intro emits_join_same) (auto simp: emits_ident)
qed

lemma emits_join_placeholders:
  "emits (join '', '' (map (\<lambda>k. ''$'' @ showNat k) [i..<i + n])) i (i + n)"
proof (induction n arbitrary: i)
  case 0
  then show ?case by simp
next
  case (Suc n)
  have upt: "[i..<i + Suc n] = i # [Suc i..<Suc i + n]"
    using upt_add_Suc[of i n] .
  show ?case
  proof (cases n)
    case 0
    then show ?thesis using emits_placeholder[of i] by (simp add: upt)
  next
    case (Suc m)
    then obtain k ks where ks: "map (\<lambda>k. ''$'' @ showNat k) [Suc i..<Suc i + n] = k # ks"
      by (cases "map (\<lambda>k. ''$'' @ showNat k) [Suc i..<Suc i + n]") auto
    have sep: "emits '', '' (Suc i) (Suc i)" by (rule emits_plain) (simp_all add: isDigit_def digitChars_def)
    have "emits (''$'' @ showNat i @ '', '' @ join '', '' (k # ks)) i (i + Suc n)"
      using emits_append[OF emits_placeholder[of i] emits_append[OF sep Suc.IH[of "Suc i"]]] ks
      by simp
    then show ?thesis by (simp only: upt list.map ks join.simps append_assoc)
  qed
qed

section \<open>Claims on the filter compiler\<close>

lemma bindList_eq:
  "bindList xs (ps, vals, i) =
     (ps @ map (\<lambda>k. ''$'' @ showNat k) [i..<i + length xs], vals @ xs, i + length xs)"
proof (induction xs arbitrary: ps vals i)
  case Nil
  then show ?case by simp
next
  case (Cons x xs)
  have step: "[i..<i + length (x # xs)] = i # [Suc i..<Suc i + length xs]"
    using upt_add_Suc[of i "length xs"] by simp
  have "bindList (x # xs) (ps, vals, i) = bindList xs (ps @ [''$'' @ showNat i], vals @ [x], Suc i)"
    by simp
  also have "\<dots> = ((ps @ [''$'' @ showNat i]) @ map (\<lambda>k. ''$'' @ showNat k) [Suc i..<Suc i + length xs],
      (vals @ [x]) @ xs, Suc i + length xs)"
    by (rule Cons.IH)
  finally show ?case
    by (simp only: step) simp
qed

lemma andEntry_scalar:
  assumes "\<not> isArrayValue val" and "\<not> typeofObject val" and "val \<noteq> JUndefined"
  shows "andEntry colPath val (statements, vals, i) =
           Inr (statements @ [specColumns colPath @ '' = '' @ ''$'' @ showNat i], vals @ [val], i + 1)"
  using assms
  by (cases val) (simp_all add: andEntry_def Let_def specColumns_def filterOpValues_def)

lemma andEntry_array:
  "andEntry colPath (JArr xs) (statements, vals, i) =
     Inr (if xs = [] \<or> list_ex isArrayValue xs then (statements, vals, i)
          else (statements @ [specColumns colPath @ '' ''
                                @ (if CHR '','' \<in> set colPath then ''='' else ''in'') @ '' ''
                                @ specRightHandSide (JArr xs) i],
                vals @ xs, i + length xs))"
  by (simp add: andEntry_def Let_def specColumns_def filterOpValues_def bindList_eq)

lemma andEntry_object_dropped:
  assumes "kvs = [] \<or> \<not> truthy (objGet kvs ''op'') \<or> ''value'' \<notin> fst ` set kvs
             \<or> (\<forall>op. objGet kvs ''op'' = JStr op \<longrightarrow> op \<notin> set filterOpValues)"
  shows "andEntry colPath (JObj kvs) st = Inr st"
  using assms
  by (cases st; cases "objGet kvs ''op''")
     (auto simp: andEntry_def Let_def hasOwnProperty_def)

lemma andEntry_object_kept:
  assumes "kvs \<noteq> []" and "objGet kvs ''op'' = JStr op" and "op \<in> set filterOpValues"
    and "''value'' \<in> fst ` set kvs"
  shows "andEntry colPath (JObj kvs) (statements, vals, i) =
           Inr (statements @ [specColumns colPath @ '' '' @ op @ '' ''
                                @ specRightHandSide (objGet kvs ''value'') i],
                vals @ specBound (objGet kvs ''value''),
                i + length (specBound (objGet kvs ''value'')))"
proof -
  have op: "op \<noteq> []" using assms(3) by (auto simp: filterOpValues_def)
  show ?thesis
    using assms op
    by (cases "objGet kvs ''value''")
       (simp_all add: andEntry_def Let_def hasOwnProperty_def specColumns_def bindList_eq)
qed

lemma andEntry_specEntry:
  assumes "val \<noteq> JNull"
  shows "andEntry colPath val st = Inr (specEntry colPath val st)"
proof (cases st)
  case (fields statements vals i)
  show ?thesis
  proof (cases val)
    case JUndefined
    then show ?thesis by (simp add: andEntry_def specEntry_def Let_def fields)
  next
    case JNull
    with assms show ?thesis by simp
  next
    case (JBool b)
    then show ?thesis using andEntry_scalar[of val] by (simp add: specEntry_def fields)
  next
    case (JNum n)
    then show ?thesis using andEntry_scalar[of val] by (simp add: specEntry_def fields)
  next
    case (JStr s)
    then show ?thesis using andEntry_scalar[of val] by (simp add: specEntry_def fields)
  next
    case (JArr xs)
    then show ?thesis by (simp add: andEntry_array specEntry_def fields)
  next
    case (JObj kvs)
    show ?thesis
    proof (cases "specOperator colPath val")
      case None
      then have "\<forall>op. objGet kvs ''op'' = JStr op \<longrightarrow> op \<notin> set filterOpValues"
        using JObj by (auto split: jsval.splits if_splits)
      then show ?thesis using None JObj andEntry_object_dropped[of kvs colPath st]
        by (simp add: specEntry_def fields)
    next
      case (Some op)
      then have op: "objGet kvs ''op'' = JStr op" "op \<in> set filterOpValues"
        using JObj by (auto split: jsval.splits if_splits)
      show ?thesis
      proof (cases "specSkipped val")
        case True
        then have "kvs = [] \<or> \<not> truthy (objGet kvs ''op'') \<or> ''value'' \<notin> fst ` set kvs"
          using JObj by auto
        then have "kvs = [] \<or> \<not> truthy (objGet kvs ''op'') \<or> ''value'' \<notin> fst ` set kvs
             \<or> (\<forall>op. objGet kvs ''op'' = JStr op \<longrightarrow> op \<notin> set filterOpValues)"
          by blast
        from andEntry_object_dropped[OF this, of colPath st] True Some JObj
        show ?thesis by (simp add: specEntry_def fields)
      next
        case False
        then have "kvs \<noteq> []" "''value'' \<in> fst ` set kvs" using JObj by auto
        from andEntry_object_kept[OF this(1) op this(2)] False Some JObj
        show ?thesis by (simp add: specEntry_def fields)
      qed
    qed
  qed
qed



section \<open>Placeholders and bindings\<close>

lemma emits_placeholders:
  assumes "emits s i j"
  shows "placeholders s = [i..<j]"
proof -
  have "settled (Code, [])" by simp
  from emitsD(2)[OF assms this] show ?thesis by (simp add: placeholders_def)
qed

lemma emits_Nil_eq: "emits [] i j \<Longrightarrow> i = j"
proof -
  assume a: "emits [] i j"
  have "settled (Code, [])" by simp
  from emitsD(2)[OF a this] have "[i..<j] = []" by simp
  with emits_le[OF a] show "i = j" by auto
qed

lemma emits_space: "emits '' '' i i"
  by (rule emits_plain) (simp_all add: isDigit_def digitChars_def)

lemma emits_comma: "emits '', '' i i"
  by (rule emits_plain) (simp_all add: isDigit_def digitChars_def)

lemma emits_parenthesize:
  assumes "emits s i j"
  shows "emits (''('' @ s @ '')'') i j"
proof -
  have l: "emits ''('' i i" and r: "emits '')'' j j"
    by (rule emits_plain; simp add: isDigit_def digitChars_def)+
  from emits_append[OF l emits_append[OF assms r]] show ?thesis .
qed

lemma emits_operator:
  assumes "op \<in> set filterOpValues"
  shows "emits ('' '' @ op @ '' '') i i"
  using assms
  by (intro emits_plain) (auto simp: filterOpValues_def isDigit_def digitChars_def)

lemma emits_specColumns: "emits (specColumns colPath) i i"
proof (cases "CHR '','' \<in> set colPath")
  case True
  have "emits (join '', '' (map identPath (split CHR '','' colPath))) i i"
    by (intro emits_join_same) (auto simp: emits_identPath emits_comma)
  from emits_parenthesize[OF this] True show ?thesis by (simp add: specColumns_def)
next
  case False
  then show ?thesis by (simp add: specColumns_def emits_identPath)
qed

lemma emits_specRightHandSide:
  "emits (specRightHandSide v i) i (i + length (specBound v))"
proof (cases v)
  case (JArr xs)
  from emits_parenthesize[OF emits_join_placeholders[of i "length xs"]] JArr
  show ?thesis by simp
qed (use emits_placeholder[of i] in simp_all)

lemma specOperator_valid: "specOperator colPath val = Some op \<Longrightarrow> op \<in> set filterOpValues"
  by (cases val) (auto simp: filterOpValues_def split: jsval.splits if_splits)

lemma specEntry_cases:
  assumes "specEntry colPath val (statements, vals, i) = (statements', vals', i')"
  shows "(statements' = statements \<and> vals' = vals \<and> i' = i) \<or>
         (\<exists>s bound. statements' = statements @ [s] \<and> s \<noteq> [] \<and> emits s i i' \<and>
            vals' = vals @ bound \<and> i' = i + length bound)"
proof (cases "specOperator colPath val")
  case None
  with assms show ?thesis by (simp add: specEntry_def)
next
  case (Some op)
  show ?thesis
  proof (cases "specSkipped val")
    case True
    with assms Some show ?thesis by (simp add: specEntry_def)
  next
    case False
    let ?bound = "specBound (specOperand val)"
    let ?s = "specColumns colPath @ '' '' @ op @ '' '' @ specRightHandSide (specOperand val) i"
    have "emits ?s i (i + length ?bound)"
      using emits_append[OF emits_specColumns[of colPath i]
          emits_append[OF emits_operator[OF specOperator_valid[OF Some], of i]
            emits_specRightHandSide[of "specOperand val" i]]]
      by simp
    moreover have "?s \<noteq> []" by simp
    ultimately show ?thesis using assms Some False by (auto simp: specEntry_def)
  qed
qed

lemma andEntry_not_null: "andEntry colPath JNull st = Inl TypeError"
  by (cases st) (simp add: andEntry_def)

lemma andEntry_cases:
  assumes "andEntry colPath val (statements, vals, i) = Inr (statements', vals', i')"
  shows "(statements' = statements \<and> vals' = vals \<and> i' = i) \<or>
         (\<exists>s bound. statements' = statements @ [s] \<and> s \<noteq> [] \<and> emits s i i' \<and>
            vals' = vals @ bound \<and> i' = i + length bound)"
proof -
  have "val \<noteq> JNull" using assms andEntry_not_null by auto
  from andEntry_specEntry[OF this] assms
  have "specEntry colPath val (statements, vals, i) = (statements', vals', i')" by simp
  then show ?thesis by (rule specEntry_cases)
qed

lemma emitsChain_snoc:
  assumes "emitsChain xs i k" and "emits x k j"
  shows "emitsChain (xs @ [x]) i j"
  using assms
proof (induction xs i k rule: emitsChain.induct)
  case (emitsChain_Nil i)
  then show ?case by (auto intro: emitsChain.intros)
next
  case (emitsChain_Cons x' i k xs j')
  then show ?case by (auto intro: emitsChain.intros)
qed

lemma emitsChain_le: "emitsChain xs i j \<Longrightarrow> i \<le> j"
  by (induction xs i j rule: emitsChain.induct) (auto dest: emits_le)

lemma emitsChain_map_parenthesize:
  "emitsChain xs i j \<Longrightarrow> emitsChain (map parenthesize xs) i j"
proof (induction xs i j rule: emitsChain.induct)
  case (emitsChain_Nil i)
  show ?case by (simp add: emitsChain.emitsChain_Nil)
next
  case (emitsChain_Cons x i k xs j)
  have "emits (parenthesize x) i k"
    unfolding parenthesize_def using emitsChain_Cons.hyps(1) by (rule emits_parenthesize)
  from emitsChain.emitsChain_Cons[OF this emitsChain_Cons.IH] show ?case by simp
qed

lemma emitsChain_join:
  assumes "emitsChain xs i j" and "\<And>k. emits sep k k"
  shows "emits (join sep xs) i j"
  using assms(1)
proof (induction xs i j rule: emitsChain.induct)
  case (emitsChain_Nil i)
  then show ?case by simp
next
  case (emitsChain_Cons x i k xs j)
  show ?case
  proof (cases xs)
    case Nil
    with emitsChain_Cons.hyps(2) have "k = j" by (auto elim: emitsChain.cases)
    with emitsChain_Cons.hyps(1) Nil show ?thesis by simp
  next
    case (Cons y ys)
    from emits_append[OF emitsChain_Cons.hyps(1) emits_append[OF assms(2)[of k] emitsChain_Cons.IH]]
    show ?thesis using Cons by simp
  qed
qed

lemma emitsChain_single: "emitsChain [s] i j \<Longrightarrow> emits s i j"
  by (auto elim!: emitsChain.cases)

lemma andLoop_inv:
  assumes "andLoop entries (statements, vals, i) = Inr (statements', vals', i')"
    and "emitsChain statements i0 i" and "i = length vals + 1"
  shows "emitsChain statements' i0 i' \<and> i' = length vals' + 1"
  using assms
proof (induction entries arbitrary: statements vals i)
  case Nil
  then show ?case by auto
next
  case (Cons entry entries)
  obtain colPath val where entry: "entry = (colPath, val)" by (cases entry)
  from Cons.prems(1) entry obtain st where
    st: "andEntry colPath val (statements, vals, i) = Inr st" and
    rest: "andLoop entries st = Inr (statements', vals', i')"
    by (auto split: sum.splits)
  obtain statements1 vals1 i1 where st1: "st = (statements1, vals1, i1)" by (cases st)
  from andEntry_cases[OF st[unfolded st1]] consider
    (same) "statements1 = statements" "vals1 = vals" "i1 = i"
  | (pushed) s bound where "statements1 = statements @ [s]" "s \<noteq> []" "emits s i i1"
      "vals1 = vals @ bound" "i1 = i + length bound"
    by blast
  then show ?case
  proof cases
    case same
    from Cons.IH[OF rest[unfolded st1 same] Cons.prems(2,3)] show ?thesis .
  next
    case pushed
    have chain: "emitsChain statements1 i0 i1"
      using emitsChain_snoc[OF Cons.prems(2) pushed(3)] pushed(1) by simp
    have len: "i1 = length vals1 + 1" using pushed(4,5) Cons.prems(3) by simp
    from Cons.IH[OF rest[unfolded st1] chain len] show ?thesis .
  qed
qed

lemma emits_and: "emits '' and '' k k"
  by (rule emits_plain) (simp_all add: isDigit_def digitChars_def)

lemma emits_or: "emits '' or '' k k"
  by (rule emits_plain) (simp_all add: isDigit_def digitChars_def)

lemma buildAndStatement_inv:
  assumes "buildAndStatement filtersMap vals i = Inr (r, vals', i')" and "i = length vals + 1"
  shows "i' = length vals' + 1 \<and> (case r of None \<Rightarrow> i' = i | Some s \<Rightarrow> emits s i i')"
proof (cases "fst filtersMap = []")
  case True
  with assms show ?thesis by (auto simp: buildAndStatement_def)
next
  case False
  with assms(1) obtain statements where
    l: "andLoop (forIn filtersMap) ([], vals, i) = Inr (statements, vals', i')" and
    r: "r = Some (join '' and '' statements)"
    by (auto simp: buildAndStatement_def split: sum.splits)
  from andLoop_inv[OF l emitsChain_Nil assms(2)] have
    c: "emitsChain statements i i'" and len: "i' = length vals' + 1" by blast+
  from emitsChain_join[OF c emits_and] r len show ?thesis by simp
qed

lemma orLoop_inv:
  assumes "orLoop gs (orStatements, vals, i) = Inr (orStatements', vals', i')"
    and "emitsChain orStatements i0 i" and "i = length vals + 1"
  shows "emitsChain orStatements' i0 i' \<and> i' = length vals' + 1"
  using assms
proof (induction gs arbitrary: orStatements vals i)
  case Nil
  then show ?case by auto
next
  case (Cons g gs)
  from Cons.prems(1) obtain r vals1 i1 where
    b: "buildAndStatement g vals i = Inr (r, vals1, i1)" and
    rest: "orLoop gs ((case r of None \<Rightarrow> orStatements
                       | Some s \<Rightarrow> if s \<noteq> [] then orStatements @ [s] else orStatements),
                      vals1, i1) = Inr (orStatements', vals', i')"
    by (auto split: sum.splits)
  from buildAndStatement_inv[OF b Cons.prems(3)] have
    len: "i1 = length vals1 + 1" and r: "case r of None \<Rightarrow> i1 = i | Some s \<Rightarrow> emits s i i1"
    by blast+
  have "emitsChain (case r of None \<Rightarrow> orStatements
                    | Some s \<Rightarrow> if s \<noteq> [] then orStatements @ [s] else orStatements) i0 i1"
  proof (cases r)
    case None
    with r Cons.prems(2) show ?thesis by simp
  next
    case (Some s)
    with r have e: "emits s i i1" by simp
    show ?thesis
    proof (cases "s = []")
      case True
      with e have "i = i1" by (auto dest: emits_Nil_eq)
      with True Some Cons.prems(2) show ?thesis by simp
    next
      case False
      with Some emitsChain_snoc[OF Cons.prems(2) e] show ?thesis by simp
    qed
  qed
  from Cons.IH[OF rest this len] show ?case .
qed

lemma emits_blockRangeStatement:
  "emits (''block_number >= '' @ literal lo
            @ (case upper of [] \<Rightarrow> [] | hi # _ \<Rightarrow> '' and block_number <= '' @ literal hi)) k k"
  by (rule emits_plain)
     (simp_all add: plainText_literal isDigit_def digitChars_def split: list.splits)

lemma emitsChain_whereGroups:
  assumes "emitsChain orStatements i j"
  shows "emitsChain (whereGroups blockRange0 orStatements) i j"
proof -
  define whereGroups0 where "whereGroups0 =
            (case blockRange0 of
               [] \<Rightarrow> []
             | lo # upper \<Rightarrow>
                 [''block_number >= '' @ literal lo
                    @ (case upper of
                         [] \<Rightarrow> []
                       | hi # _ \<Rightarrow> '' and block_number <= '' @ literal hi)])"
  have w0: "emitsChain whereGroups0 i i"
  proof (cases blockRange0)
    case Nil
    then show ?thesis unfolding whereGroups0_def by (simp only: list.case emitsChain_Nil)
  next
    case (Cons lo upper)
    from emitsChain_Cons[OF emits_blockRangeStatement emitsChain_Nil]
    show ?thesis unfolding whereGroups0_def Cons by (simp only: list.case)
  qed
  have orPart: "emits (join '' or '' (map parenthesize orStatements)) i j"
    by (rule emitsChain_join[OF emitsChain_map_parenthesize[OF assms] emits_or])
  have "emitsChain (case orStatements of
           [] \<Rightarrow> whereGroups0
         | [s] \<Rightarrow> whereGroups0 @ [s]
         | _ \<Rightarrow> whereGroups0 @ [join '' or '' (map parenthesize orStatements)]) i j"
  proof (cases orStatements)
    case Nil
    with assms have "i = j" by (auto elim: emitsChain.cases)
    with Nil w0 show ?thesis by simp
  next
    case (Cons s rest)
    show ?thesis
    proof (cases rest)
      case Nil
      with Cons assms have "emits s i j" by (simp add: emitsChain_single)
      from emitsChain_snoc[OF w0 this] Cons Nil show ?thesis by simp
    next
      case (Cons t more)
      from emitsChain_snoc[OF w0 orPart] Cons \<open>orStatements = s # rest\<close>
      show ?thesis by simp
    qed
  qed
  then show ?thesis unfolding whereGroups_def whereGroups0_def Let_def .
qed

lemma emits_whereClause:
  assumes "emitsChain gs i j"
  shows "emits (whereClause gs) i j"
proof (cases gs)
  case Nil
  with assms have "i = j" by (auto elim: emitsChain.cases)
  moreover have "emits ''undefined'' i i"
    by (rule emits_plain) (simp_all add: isDigit_def digitChars_def)
  ultimately show ?thesis using Nil by (simp add: whereClause_def)
next
  case (Cons g rest)
  show ?thesis
  proof (cases rest)
    case Nil
    with Cons assms show ?thesis by (simp add: whereClause_def emitsChain_single)
  next
    case (Cons t more)
    from emitsChain_join[OF emitsChain_map_parenthesize[OF assms] emits_and]
    show ?thesis using Cons \<open>gs = g # rest\<close> by (simp add: whereClause_def)
  qed
qed

lemma emits_orderBy:
  assumes "d \<in> set orderByDirections"
  shows "emits ('' order by ('' @ join '', '' (map identPath (map toSnakeCase cs)) @ '') '' @ d) k k"
proof -
  have a: "emits '' order by ('' k k"
    by (rule emits_plain) (simp_all add: isDigit_def digitChars_def)
  have b: "emits (join '', '' (map identPath (map toSnakeCase cs))) k k"
    by (intro emits_join_same) (auto simp: emits_identPath emits_comma)
  have c: "emits ('') '' @ d) k k"
    using assms
    by (intro emits_plain) (auto simp: orderByDirections_def isDigit_def digitChars_def)
  from emits_append[OF a emits_append[OF b c]] show ?thesis by simp
qed

lemma emits_offset: "emits ('' offset '' @ literal n) k k"
  by (rule emits_plain) (simp_all add: plainText_literal isDigit_def digitChars_def)

lemma emits_limit: "emits ('' limit '' @ literal n) k k"
  by (rule emits_plain) (simp_all add: plainText_literal isDigit_def digitChars_def)

lemma emits_addSelectOptionsToQuery:
  assumes "emits s i j"
  shows "emits (addSelectOptionsToQuery s options) i j"
proof -
  define sql1 where "sql1 =
            (case orderBy options of
               None \<Rightarrow> s
             | Some ob \<Rightarrow>
                 if (case column ob of OneColumn c \<Rightarrow> c \<noteq> [] | ManyColumns cs \<Rightarrow> True)
                    \<and> direction ob \<in> set orderByDirections
                 then s @ '' order by (''
                        @ join '', '' (map identPath (map toSnakeCase
                            (case column ob of OneColumn c \<Rightarrow> [c] | ManyColumns cs \<Rightarrow> cs)))
                        @ '') '' @ direction ob
                 else s)"
  define sql2 where "sql2 = (case offset options of None \<Rightarrow> sql1
                  | Some n \<Rightarrow> sql1 @ '' offset '' @ literal n)"
  define sql3 where "sql3 = (case limit options of None \<Rightarrow> sql2
                  | Some n \<Rightarrow> sql2 @ '' limit '' @ literal n)"
  have 1: "emits sql1 i j"
    unfolding sql1_def using assms emits_append[OF assms emits_orderBy]
    by (simp split: option.splits)
  have 2: "emits sql2 i j"
    unfolding sql2_def using 1 emits_append[OF 1 emits_offset]
    by (simp split: option.splits)
  have 3: "emits sql3 i j"
    unfolding sql3_def using 2 emits_append[OF 2 emits_limit]
    by (simp split: option.splits)
  have "addSelectOptionsToQuery s options = sql3"
    unfolding addSelectOptionsToQuery_def sql1_def sql2_def sql3_def Let_def by (rule refl)
  with 3 show ?thesis by simp
qed

lemma emits_select: "emits (''select * from '' @ identPath t) k k"
proof -
  have "emits ''select * from '' k k"
    by (rule emits_plain) (simp_all add: isDigit_def digitChars_def)
  from emits_append[OF this emits_identPath] show ?thesis .
qed

lemma buildSelectQuery_emits:
  assumes "buildSelectQuery SPEC_SCHEMA CHAIN_ID_PROPERTY table filters options = Inr q"
  shows "emits (sql q) 1 (length (bindings q) + 1)"
proof -
  from assms obtain table' filters2 where
    d: "detectSpecSchemaQuery SPEC_SCHEMA CHAIN_ID_PROPERTY table (truthyGroups filters) options
          = Inr (table', filters2)"
    by (auto simp: buildSelectQuery_def Let_def split: sum.splits)
  define select where "select = ''select * from '' @ identPath table'"
  have unfiltered: "emits (addSelectOptionsToQuery select options) 1 1"
    unfolding select_def by (rule emits_addSelectOptionsToQuery[OF emits_select])
  have w: "emits '' where '' k k" for k
    by (rule emits_plain) (simp_all add: isDigit_def digitChars_def)
  consider
    (plain) "sql q = addSelectOptionsToQuery select options" "bindings q = []"
  | (filtered) orStatements vals i where
      "orLoop (map formatFilter filters2) ([], [], 1) = Inr (orStatements, vals, i)"
      "sql q = addSelectOptionsToQuery
                 (select @ '' where ''
                    @ whereClause (whereGroups (case blockRange options of None \<Rightarrow> [] | Some r \<Rightarrow> r)
                                     orStatements)) options"
      "bindings q = vals"
    using assms unfolding buildSelectQuery_def Let_def d select_def
    by (auto split: sum.splits prod.splits if_splits)
  then show ?thesis
  proof cases
    case plain
    with unfiltered show ?thesis by simp
  next
    case filtered
    have one: "(1::nat) = length ([]::jsval list) + 1" by simp
    from orLoop_inv[OF filtered(1) emitsChain_Nil one] have
      c: "emitsChain orStatements 1 i" and len: "i = length vals + 1" by blast+
    have s: "emits select 1 1" unfolding select_def by (rule emits_select)
    from emits_append[OF s emits_append[OF w[of 1]
          emits_whereClause[OF emitsChain_whereGroups[OF c]]]]
    have "emits (select @ '' where ''
                    @ whereClause (whereGroups (case blockRange options of None \<Rightarrow> [] | Some r \<Rightarrow> r)
                                     orStatements)) 1 i" .
    from emits_addSelectOptionsToQuery[OF this] filtered len show ?thesis by simp
  qed
qed

lemma emits_rowPlaceholders:
  "emits (rowPlaceholders m i r) (i + r * m) (i + r * m + m)"
  unfolding rowPlaceholders_def
  by (rule emits_parenthesize[OF emits_join_placeholders])

lemma emitsChain_rowPlaceholders:
  "emitsChain (map (rowPlaceholders m i) [0..<n]) i (i + n * m)"
proof (induction n)
  case 0
  show ?case by (simp add: emitsChain_Nil)
next
  case (Suc n)
  have a: "i + n * m + m = i + Suc n * m" by simp
  have b: "map (rowPlaceholders m i) [0..<Suc n]
             = map (rowPlaceholders m i) [0..<n] @ [rowPlaceholders m i n]" by simp
  from emitsChain_snoc[OF Suc emits_rowPlaceholders[of m i n]]
  show ?case by (simp only: a b)
qed

lemma emits_idents: "emits (join '', '' (map ident (map toSnakeCase cs))) k k"
  by (intro emits_join_same) (auto simp: emits_ident emits_comma)

lemma emits_updates:
  "emits (join '', '' (map (\<lambda>updateColName.
            ident updateColName @ '' = excluded.'' @ ident updateColName) cs)) k k"
proof -
  have e: "emits '' = excluded.'' k k"
    by (rule emits_plain) (simp_all add: isDigit_def digitChars_def)
  have "emits (ident c @ '' = excluded.'' @ ident c) k k" for c
    by (rule emits_append[OF emits_ident emits_append[OF e emits_ident]])
  then show ?thesis
    by (intro emits_join_same) (auto simp: emits_comma)
qed

lemma emits_text:
  assumes "plainText t" and "okstart t"
  shows "emits s i j \<Longrightarrow> emits (s @ t) i j"
  by (rule emits_append[OF _ emits_plain[OF assms]])

lemma buildUpsertQuery_emits:
  assumes "buildUpsertQuery table data conflictColumns updateColumns pts ret = Inr q"
  shows "emits (sql q) 1 (length (bindings q) + 1)"
proof (cases data)
  case Nil
  with assms show ?thesis by (simp add: buildUpsertQuery_def)
next
  case (Cons first rest)
  define cols where "cols = sort (map fst first)"
  define n where "n = 1 + length data * length cols"
  have ne: "cols \<noteq> []"
    using assms Cons unfolding cols_def by (auto simp: buildUpsertQuery_def Let_def)
  define sql0 where "sql0 = ''insert into '' @ identPath table @ '' (''
                     @ join '', '' (map ident (map toSnakeCase cols)) @ '')''"
  define sql1 where "sql1 = sql0 @ '' values ''
                     @ join '', '' (map (rowPlaceholders (length cols) 1) [0..<length data])
                     @ '' on conflict (''
                     @ join '', '' (map ident (map toSnakeCase conflictColumns)) @ '')''"
  define sql2 where "sql2 = sql1 @ '' do update set ''
                     @ join '', '' (map (\<lambda>updateColName.
                          ident updateColName @ '' = excluded.'' @ ident updateColName)
                          (map toSnakeCase updateColumns))"
  define sql3 where "sql3 = (case pts of
                                  None \<Rightarrow> sql2
                                | Some col \<Rightarrow>
                                    if col = [] then sql2
                                    else sql2 @ '' where ''
                                           @ identPath (join ''.'' [table, col])
                                           @ '' <= excluded.'' @ ident col)"
  define sql4 where "sql4 = (case ret of
                                  None \<Rightarrow> sql3
                                | Some (ReturningString r) \<Rightarrow>
                                    if r = [] then sql3
                                    else sql3 @ '' returning ''
                                           @ (if r = ''*'' then ''*''
                                              else join '', '' (map ident (map toSnakeCase [r])))
                                | Some (ReturningArray rs) \<Rightarrow>
                                    sql3 @ '' returning ''
                                      @ join '', '' (map ident (map toSnakeCase rs)))"
  have t1: "emits ''insert into '' k k" and t2: "emits '' ('' k k" and t3: "emits '')'' k k"
    and t4: "emits '' values '' k k" and t5: "emits '' on conflict ('' k k"
    and t6: "emits '' do update set '' k k" and t7: "emits '' where '' k k"
    and t8: "emits '' <= excluded.'' k k" and t9: "emits '' returning '' k k"
    and t10: "emits ''*'' k k" and t11: "emits '' do nothing'' k k" for k
    by (rule emits_plain; simp add: isDigit_def digitChars_def)+
  have e0: "emits sql0 1 1"
    unfolding sql0_def
    by (rule emits_append[OF t1 emits_append[OF emits_identPath
          emits_append[OF t2 emits_append[OF emits_idents t3]]]])
  have rows: "emits (join '', '' (map (rowPlaceholders (length cols) 1) [0..<length data])) 1 n"
    unfolding n_def by (rule emitsChain_join[OF emitsChain_rowPlaceholders emits_comma])
  have e1: "emits sql1 1 n"
    unfolding sql1_def
    by (rule emits_append[OF e0 emits_append[OF t4 emits_append[OF rows
          emits_append[OF t5 emits_append[OF emits_idents t3]]]]])
  have e2: "emits sql2 1 n"
    unfolding sql2_def by (rule emits_append[OF e1 emits_append[OF t6 emits_updates]])
  have guard: "emits ('' where '' @ identPath (join ''.'' [table, col])
                        @ '' <= excluded.'' @ ident col) k k" for col k
    by (rule emits_append[OF t7 emits_append[OF emits_identPath emits_append[OF t8 emits_ident]]])
  have e3: "emits sql3 1 n"
    unfolding sql3_def using e2 emits_append[OF e2 guard]
    by (simp split: option.splits)
  have r1: "emits ('' returning '' @ (if r = ''*'' then ''*''
                                       else join '', '' (map ident (map toSnakeCase [r])))) k k"
    for r k
  proof (cases "r = ''*''")
    case True
    from emits_append[OF t9 t10, of k] True show ?thesis by simp
  next
    case False
    from emits_append[OF t9 emits_idents[of "[r]"], of k] False show ?thesis by simp
  qed
  have r2: "emits ('' returning '' @ join '', '' (map ident (map toSnakeCase rs))) k k" for rs k
    by (rule emits_append[OF t9 emits_idents])
  have e4: "emits sql4 1 n"
  proof (cases ret)
    case None
    with e3 show ?thesis by (simp add: sql4_def)
  next
    case (Some rr)
    show ?thesis
    proof (cases rr)
      case (ReturningString r)
      with Some e3 emits_append[OF e3 r1[of r n]] show ?thesis
        unfolding sql4_def by (cases "r = []") simp_all
    next
      case (ReturningArray rs)
      with Some emits_append[OF e3 r2[of rs n]] show ?thesis
        unfolding sql4_def by simp
    qed
  qed
  have len: "length (concat (map (\<lambda>row. map (objGet row) cols) data)) + 1 = n"
    unfolding n_def by (induction data) simp_all
  have r: "buildUpsertQuery table (first # rest) conflictColumns updateColumns pts ret
             = Inr \<lparr> schemaName = fst (splitTable table), tableName = snd (splitTable table),
                     sql = (if updateColumns = [] then sql1 @ '' do nothing'' else sql4),
                     bindings = concat (map (\<lambda>row. map (objGet row) cols) data) \<rparr>"
  proof -
    have d: "upsertData (sort (map fst first)) (first # rest) ([], [], 1)
               = (map (rowPlaceholders (length cols) 1) [0..<length data],
                  concat (map (\<lambda>row. map (objGet row) cols) data),
                  1 + length data * length cols)"
      unfolding cols_def Cons by (simp only: upsertData_eq append_Nil)
    show ?thesis
      unfolding buildUpsertQuery_def
      apply (simp only: list.case Let_def d prod.case split: prod.splits)
      unfolding sql4_def sql3_def sql2_def sql1_def sql0_def
      using ne unfolding cols_def
      apply (simp only: if_False fst_conv snd_conv cols_def[symmetric])
      apply (cases "splitTable table")
      apply (simp only: fst_conv snd_conv prod.case cols_def)
      apply (intro allI impI)
      apply (simp only: prod.inject)
      apply (erule conjE)
      apply (cases "updateColumns = []")
       apply (simp_all only: if_True if_False refl)
      done
  qed
  have q: "sql q = (if updateColumns = [] then sql1 @ '' do nothing'' else sql4)
           \<and> bindings q = concat (map (\<lambda>row. map (objGet row) cols) data)"
    using assms r unfolding Cons by auto
  show ?thesis
  proof (cases "updateColumns = []")
    case True
    with q emits_append[OF e1 t11[of n]] len show ?thesis by simp
  next
    case False
    with q e4 len show ?thesis by simp
  qed
qed


subsection \<open>The values behind the placeholders\<close>

lemma specEntry_threaded:
  "specEntry colPath val (statements, vals, i) =
     (statements @ (case specStatement colPath val i of None \<Rightarrow> [] | Some s \<Rightarrow> [s]),
      vals @ specValues colPath val, i + length (specValues colPath val))"
  by (simp add: specEntry_def specStatement_def specValues_def split: option.splits)

lemma andLoop_threaded:
  assumes "andLoop entries (statements, vals, i) = Inr r"
  shows "r = (statements @ specStatements entries i, vals @ specGroupValues entries,
              i + length (specGroupValues entries))"
  using assms
proof (induction entries arbitrary: statements vals i)
  case Nil
  then show ?case by (simp add: specGroupValues_def)
next
  case (Cons entry entries)
  obtain colPath val where entry: "entry = (colPath, val)" by (cases entry)
  from Cons.prems entry obtain st where
    st: "andEntry colPath val (statements, vals, i) = Inr st" and
    rest: "andLoop entries st = Inr r"
    by (auto split: sum.splits)
  have "val \<noteq> JNull" using st andEntry_not_null by auto
  from andEntry_specEntry[OF this, of colPath "(statements, vals, i)"] st
  have st': "st = (statements @ (case specStatement colPath val i of None \<Rightarrow> [] | Some s \<Rightarrow> [s]),
                   vals @ specValues colPath val, i + length (specValues colPath val))"
    by (simp add: specEntry_threaded)
  from Cons.IH[OF rest[unfolded st']] entry show ?case
    by (simp add: specGroupValues_def)
qed

lemma emits_specStatement:
  assumes "specStatement colPath val i = Some s"
  shows "emits s i (i + length (specValues colPath val))"
proof -
  from assms obtain op where op: "specOperator colPath val = Some op"
    and k: "\<not> specSkipped val"
    and s: "s = specColumns colPath @ '' '' @ op @ '' '' @ specRightHandSide (specOperand val) i"
    by (auto simp: specStatement_def split: option.splits if_splits)
  have v: "specValues colPath val = specBound (specOperand val)"
    using op k by (simp add: specValues_def)
  have "emits (specColumns colPath @ ('' '' @ op @ '' '') @ specRightHandSide (specOperand val) i)
          i (i + length (specBound (specOperand val)))"
    by (rule emits_append[OF emits_specColumns
          emits_append[OF emits_operator[OF specOperator_valid[OF op]] emits_specRightHandSide]])
  then show ?thesis unfolding s v by simp
qed

lemma specStatement_not_Nil: "specStatement colPath val i = Some s \<Longrightarrow> s \<noteq> []"
  by (auto simp: specStatement_def split: option.splits if_splits)

lemma specStatement_None_values:
  "specStatement colPath val i = None \<Longrightarrow> specValues colPath val = []"
  by (auto simp: specStatement_def specValues_def split: option.splits if_splits)

lemma specStatements_Nil_values:
  "specStatements entries i = [] \<Longrightarrow> specGroupValues entries = []"
proof (induction entries arbitrary: i)
  case Nil
  show ?case by (simp add: specGroupValues_def)
next
  case (Cons entry entries)
  obtain colPath val where entry: "entry = (colPath, val)" by (cases entry)
  from Cons.prems entry have n: "specStatement colPath val i = None"
    and r: "specStatements entries (i + length (specValues colPath val)) = []"
    by (auto split: option.splits)
  from Cons.IH[OF r] specStatement_None_values[OF n] entry show ?case
    by (simp add: specGroupValues_def)
qed

lemma specStatements_not_Nil: "s \<in> set (specStatements entries i) \<Longrightarrow> s \<noteq> []"
proof (induction entries arbitrary: i)
  case Nil
  then show ?case by simp
next
  case (Cons entry entries)
  obtain colPath val where entry: "entry = (colPath, val)" by (cases entry)
  from Cons.prems entry consider
    "specStatement colPath val i = Some s"
    | "s \<in> set (specStatements entries (i + length (specValues colPath val)))"
    by (auto split: option.splits)
  then show ?case
  proof cases
    case 1
    then show ?thesis by (rule specStatement_not_Nil)
  next
    case 2
    then show ?thesis by (rule Cons.IH)
  qed
qed

lemma join_eq_Nil:
  assumes "join sep xs = []" and "\<forall>x \<in> set xs. x \<noteq> []"
  shows "xs = []"
proof (cases xs)
  case Nil
  then show ?thesis .
next
  case (Cons x rest)
  with assms(2) have "x \<noteq> []" by simp
  with assms(1) Cons show ?thesis by (cases rest) simp_all
qed

lemma specOrStatements_Nil_values:
  "specOrStatements groups i = [] \<Longrightarrow> concat (map specGroupValues groups) = []"
proof (induction groups arbitrary: i)
  case Nil
  show ?case by simp
next
  case (Cons entries groups)
  from Cons.prems have n: "specStatements entries i = []"
    and r: "specOrStatements groups (i + length (specGroupValues entries)) = []"
    by (auto split: if_splits)
  from Cons.IH[OF r] specStatements_Nil_values[OF n] show ?case by simp
qed

lemma buildAndStatement_threaded:
  assumes "buildAndStatement flt vals i = Inr (r, vals', i')"
  shows "vals' = vals @ specGroupValues (if fst flt = [] then [] else forIn flt) \<and>
         i' = i + length (specGroupValues (if fst flt = [] then [] else forIn flt)) \<and>
         (case r of None \<Rightarrow> orStatements
          | Some s \<Rightarrow> if s \<noteq> [] then orStatements @ [s] else orStatements)
           = orStatements
               @ (if specStatements (if fst flt = [] then [] else forIn flt) i = [] then []
                  else [join '' and '' (specStatements (if fst flt = [] then [] else forIn flt) i)])"
proof (cases "fst flt = []")
  case True
  with assms show ?thesis by (auto simp: buildAndStatement_def specGroupValues_def)
next
  case False
  with assms obtain statements where
    l: "andLoop (forIn flt) ([], vals, i) = Inr (statements, vals', i')" and
    r: "r = Some (join '' and '' statements)"
    by (auto simp: buildAndStatement_def split: sum.splits)
  from andLoop_threaded[OF l] have
    st: "statements = specStatements (forIn flt) i" and
    v: "vals' = vals @ specGroupValues (forIn flt)" and
    c: "i' = i + length (specGroupValues (forIn flt))"
    by simp_all
  have e: "join '' and '' statements = [] \<longleftrightarrow> statements = []"
  proof
    assume "join '' and '' statements = []"
    then show "statements = []"
      using specStatements_not_Nil[of _ "forIn flt" i] unfolding st
      by (intro join_eq_Nil[of "'' and ''"]) auto
  next
    assume "statements = []"
    then show "join '' and '' statements = []" by simp
  qed
  from False r st v c e show ?thesis by auto
qed

lemma orLoop_threaded:
  assumes "orLoop gs (orStatements, vals, i) = Inr r"
  shows "r = (orStatements
                @ specOrStatements (map (\<lambda>flt. if fst flt = [] then [] else forIn flt) gs) i,
              vals @ concat (map specGroupValues
                              (map (\<lambda>flt. if fst flt = [] then [] else forIn flt) gs)),
              i + length (concat (map specGroupValues
                              (map (\<lambda>flt. if fst flt = [] then [] else forIn flt) gs))))"
  using assms
proof (induction gs arbitrary: orStatements vals i)
  case Nil
  then show ?case by simp
next
  case (Cons g gs)
  from Cons.prems obtain a vals1 i1 where
    b: "buildAndStatement g vals i = Inr (a, vals1, i1)" and
    rest: "orLoop gs ((case a of None \<Rightarrow> orStatements
                       | Some s \<Rightarrow> if s \<noteq> [] then orStatements @ [s] else orStatements),
                      vals1, i1) = Inr r"
    by (auto split: sum.splits)
  from buildAndStatement_threaded[OF b, of orStatements] have
    v: "vals1 = vals @ specGroupValues (if fst g = [] then [] else forIn g)" and
    c: "i1 = i + length (specGroupValues (if fst g = [] then [] else forIn g))" and
    o: "(case a of None \<Rightarrow> orStatements
         | Some s \<Rightarrow> if s \<noteq> [] then orStatements @ [s] else orStatements)
          = orStatements
              @ (if specStatements (if fst g = [] then [] else forIn g) i = [] then []
                 else [join '' and '' (specStatements (if fst g = [] then [] else forIn g) i)])"
    by blast+
  from Cons.IH[OF rest[unfolded o v c]] show ?case by simp
qed

lemma groupEntries_map:
  "map (\<lambda>flt. if fst flt = [] then [] else forIn flt) (map formatFilter groups)
     = map groupEntries groups"
  by (simp add: groupEntries_def comp_def)

lemma buildSelectQuery_threaded:
  assumes "buildSelectQuery SPEC_SCHEMA CHAIN_ID_PROPERTY table filters options = Inr q"
  shows "\<exists>table' groups.
           detectSpecSchemaQuery SPEC_SCHEMA CHAIN_ID_PROPERTY table (truthyGroups filters) options
             = Inr (table', groups) \<and>
           bindings q = concat (map specGroupValues (map groupEntries groups)) \<and>
           sql q = addSelectOptionsToQuery
                     (''select * from '' @ identPath table'
                        @ specWhere (case blockRange options of None \<Rightarrow> [] | Some r \<Rightarrow> r)
                            (specOrStatements (map groupEntries groups) 1))
                     options"
proof -
  let ?br = "case blockRange options of None \<Rightarrow> [] | Some r \<Rightarrow> r"
  from assms obtain table' groups where
    d: "detectSpecSchemaQuery SPEC_SCHEMA CHAIN_ID_PROPERTY table (truthyGroups filters) options
          = Inr (table', groups)"
    by (auto simp: buildSelectQuery_def Let_def split: sum.splits)
  let ?ors = "specOrStatements (map groupEntries groups) 1"
  let ?vals = "concat (map specGroupValues (map groupEntries groups))"
  consider
    (empty) "groups = []" "?br = []"
      "sql q = addSelectOptionsToQuery (''select * from '' @ identPath table') options"
      "bindings q = []"
  | (looped) orStatements vals i where
      "orLoop (map formatFilter groups) ([], [], 1) = Inr (orStatements, vals, i)"
      "orStatements = [] \<and> ?br = [] \<longrightarrow>
         sql q = addSelectOptionsToQuery (''select * from '' @ identPath table') options
           \<and> bindings q = []"
      "\<not> (orStatements = [] \<and> ?br = []) \<longrightarrow>
         sql q = addSelectOptionsToQuery
                   ((''select * from '' @ identPath table') @ '' where ''
                      @ whereClause (whereGroups ?br orStatements)) options
           \<and> bindings q = vals"
    using assms unfolding buildSelectQuery_def Let_def d
    by (auto split: sum.splits prod.splits if_splits)
  then have "bindings q = ?vals \<and>
             sql q = addSelectOptionsToQuery
                       (''select * from '' @ identPath table' @ specWhere ?br ?ors) options"
  proof cases
    case empty
    then show ?thesis by (simp add: specWhere_def)
  next
    case looped
    from orLoop_threaded[OF looped(1), unfolded groupEntries_map] have
      o: "orStatements = ?ors" and v: "vals = ?vals"
      by simp_all
    show ?thesis
    proof (cases "orStatements = [] \<and> ?br = []")
      case True
      with o have "?ors = []" by simp
      from specOrStatements_Nil_values[OF this] have "?vals = []" .
      with True looped(2) o show ?thesis by (simp add: specWhere_def)
    next
      case False
      with looped(3) o v show ?thesis by (auto simp: specWhere_def)
    qed
  qed
  with d show ?thesis by blast
qed

lemma placeholders_rowPlaceholders:
  "placeholders (rowPlaceholders m 1 r) = [r * m + 1..<r * m + m + 1]"
  using emits_placeholders[OF emits_rowPlaceholders[of m 1 r]] by (simp add: add.commute)

lemma placeholders_upsert_head:
  "placeholders (''insert into '' @ identPath table @ '' (''
                   @ join '', '' (map ident (map toSnakeCase cols)) @ '')'' @ '' values '') = []"
proof -
  have t1: "emits ''insert into '' k k" and t2: "emits '' ('' k k" and t3: "emits '')'' k k"
    and t4: "emits '' values '' k k" for k
    by (rule emits_plain; simp add: isDigit_def digitChars_def)+
  have "emits (''insert into '' @ identPath table @ '' (''
                 @ join '', '' (map ident (map toSnakeCase cols)) @ '')'' @ '' values '') 1 1"
    by (rule emits_append[OF t1 emits_append[OF emits_identPath
          emits_append[OF t2 emits_append[OF emits_idents emits_append[OF t3 t4]]]]])
  from emits_placeholders[OF this] show ?thesis by simp
qed

text \<open>
  Claim C1. Whenever a select or an upsert compilation returns a payload, the
  placeholders of its \<open>sql\<close>, read left to right, are exactly \<open>$1, $2, \<dots>, $n\<close> with
  \<open>n\<close> the number of bindings: as many as bindings, no gap, no repeat. And every
  binding is the value of the placeholder of its position. In a select, the bindings
  are the values of the entries that are kept, group after group and entry after entry
  (the elements of a list one by one), and the statement of every entry holds the
  placeholders numbered from where the values bound before it end, as many as it binds
  values. In an upsert, the bindings are the rows' values under the sorted columns, row
  after row, and row \<open>r\<close> of \<open>m\<close> columns holds the placeholders \<open>r m + 1, \<dots>, r m + m\<close>.
\<close>

theorem placeholders_match_bindings:
  "(buildSelectQuery SPEC_SCHEMA CHAIN_ID_PROPERTY table filters options = Inr q \<longrightarrow>
      placeholders (sql q) = [1..<Suc (length (bindings q))] \<and>
      (\<exists>table' groups.
         detectSpecSchemaQuery SPEC_SCHEMA CHAIN_ID_PROPERTY table (truthyGroups filters) options
           = Inr (table', groups) \<and>
         bindings q = concat (map specGroupValues (map groupEntries groups)) \<and>
         sql q = addSelectOptionsToQuery
                   (''select * from '' @ identPath table'
                      @ specWhere (case blockRange options of None \<Rightarrow> [] | Some r \<Rightarrow> r)
                          (specOrStatements (map groupEntries groups) 1))
                   options)) \<and>
   (specStatement colPath val i = Some s \<longrightarrow>
      placeholders s = [i..<i + length (specValues colPath val)]) \<and>
   (buildUpsertQuery table2 data conflictColumns updateColumns pts ret = Inr q2 \<longrightarrow>
      placeholders (sql q2) = [1..<Suc (length (bindings q2))] \<and>
      bindings q2 = concat (map (\<lambda>row. map (objGet row) (sort (map fst (hd data)))) data) \<and>
      (\<exists>head suffix.
         sql q2 = head @ join '', '' (map (rowPlaceholders (length (hd data)) 1) [0..<length data])
                    @ suffix \<and>
         placeholders head = [])) \<and>
   placeholders (rowPlaceholders m 1 r) = [r * m + 1..<r * m + m + 1]"
proof (intro conjI impI)
  assume a: "buildSelectQuery SPEC_SCHEMA CHAIN_ID_PROPERTY table filters options = Inr q"
  from emits_placeholders[OF buildSelectQuery_emits[OF a]]
  show "placeholders (sql q) = [1..<Suc (length (bindings q))]" by simp
  from buildSelectQuery_threaded[OF a]
  show "\<exists>table' groups.
         detectSpecSchemaQuery SPEC_SCHEMA CHAIN_ID_PROPERTY table (truthyGroups filters) options
           = Inr (table', groups) \<and>
         bindings q = concat (map specGroupValues (map groupEntries groups)) \<and>
         sql q = addSelectOptionsToQuery
                   (''select * from '' @ identPath table'
                      @ specWhere (case blockRange options of None \<Rightarrow> [] | Some r \<Rightarrow> r)
                          (specOrStatements (map groupEntries groups) 1))
                   options" .
next
  assume "specStatement colPath val i = Some s"
  from emits_placeholders[OF emits_specStatement[OF this]]
  show "placeholders s = [i..<i + length (specValues colPath val)]" .
next
  assume a: "buildUpsertQuery table2 data conflictColumns updateColumns pts ret = Inr q2"
  from emits_placeholders[OF buildUpsertQuery_emits[OF a]]
  show "placeholders (sql q2) = [1..<Suc (length (bindings q2))]" by simp
  from buildUpsertQuery_Inr[OF a] obtain first rest suffix where
    d: "data = first # rest" and
    b: "bindings q2 = concat (map (\<lambda>row. map (objGet row) (sort (map fst first))) data)" and
    s: "sql q2 = ''insert into '' @ identPath table2 @ '' (''
               @ join '', '' (map ident (map toSnakeCase (sort (map fst first)))) @ '')''
               @ '' values ''
               @ join '', '' (map (rowPlaceholders (length first) 1) [0..<length data]) @ suffix"
    by blast
  from b d show "bindings q2 = concat (map (\<lambda>row. map (objGet row) (sort (map fst (hd data)))) data)"
    by simp
  have "sql q2 = (''insert into '' @ identPath table2 @ '' (''
               @ join '', '' (map ident (map toSnakeCase (sort (map fst first)))) @ '')''
               @ '' values '')
               @ join '', '' (map (rowPlaceholders (length (hd data)) 1) [0..<length data]) @ suffix"
    using s d by simp
  with placeholders_upsert_head[of table2 "sort (map fst first)"]
  show "\<exists>head suffix.
         sql q2 = head @ join '', '' (map (rowPlaceholders (length (hd data)) 1) [0..<length data])
                    @ suffix \<and>
         placeholders head = []"
    by blast
next
  show "placeholders (rowPlaceholders m 1 r) = [r * m + 1..<r * m + m + 1]"
    by (rule placeholders_rowPlaceholders)
qed

theorem placeholders_match_bindings_witness:
  \<open>buildSelectQuery ''spec'' ''chainId'' ''public.users''
       (FiltersArray [Some [(''id'', JArr [JNum 1, JNum 2]), (''$9'', JStr ''x'')],
                      Some [(''age'', JObj [(''op'', JStr ''>=''), (''value'', JNum 21)])]])
       (noOptions\<lparr>limit := Some 10\<rparr>)
     = Inr \<lparr>schemaName = ''public'', tableName = Some ''users'',
         sql = ''select * from "public"."users" where ("id" in ($1, $2) and "$9" = $3) or ("age" >= $4) limit 10'',
         bindings = [JNum 1, JNum 2, JStr ''x'', JNum 21]\<rparr> \<and>
   placeholders ''select * from "public"."users" where ("id" in ($1, $2) and "$9" = $3) or ("age" >= $4) limit 10''
     = [1, 2, 3, 4] \<and>
   concat (map specGroupValues (map groupEntries
       [plainObject [(''id'', JArr [JNum 1, JNum 2]), (''$9'', JStr ''x'')],
        plainObject [(''age'', JObj [(''op'', JStr ''>=''), (''value'', JNum 21)])]]))
     = [JNum 1, JNum 2, JStr ''x'', JNum 21] \<and>
   specStatement ''id'' (JArr [JNum 7, JNum 8]) 2 = Some ''"id" in ($2, $3)'' \<and>
   placeholders ''"id" in ($2, $3)'' = [2, 3] \<and>
   buildUpsertQuery ''public.users''
      [[(''id'', JNum 1), (''fullName'', JStr ''A'')], [(''id'', JNum 2), (''fullName'', JStr ''B'')]]
      [''id''] [''fullName''] None None
     = Inr \<lparr>schemaName = ''public'', tableName = Some ''users'',
         sql = ''insert into "public"."users" ("full_name", "id") values ($1, $2), ($3, $4) on conflict ("id") do update set "full_name" = excluded."full_name"'',
         bindings = [JStr ''A'', JNum 1, JStr ''B'', JNum 2]\<rparr> \<and>
   placeholders ''insert into "public"."users" ("full_name", "id") values ($1, $2), ($3, $4) on conflict ("id") do update set "full_name" = excluded."full_name"''
     = [1, 2, 3, 4] \<and>
   placeholders (rowPlaceholders 2 1 1) = [3, 4]\<close>
proof -
  let ?filters = "FiltersArray [Some [(''id'', JArr [JNum 1, JNum 2]), (''$9'', JStr ''x'')],
                      Some [(''age'', JObj [(''op'', JStr ''>=''), (''value'', JNum 21)])]]"
  let ?groups = "[plainObject [(''id'', JArr [JNum 1, JNum 2]), (''$9'', JStr ''x'')],
        plainObject [(''age'', JObj [(''op'', JStr ''>=''), (''value'', JNum 21)])]]"
  let ?data = "[[(''id'', JNum 1), (''fullName'', JStr ''A'')], [(''id'', JNum 2), (''fullName'', JStr ''B'')]]"
  let ?q = \<open>\<lparr>schemaName = ''public'', tableName = Some ''users'',
         sql = ''select * from "public"."users" where ("id" in ($1, $2) and "$9" = $3) or ("age" >= $4) limit 10'',
         bindings = [JNum 1, JNum 2, JStr ''x'', JNum 21]\<rparr>\<close>
  let ?q2 = \<open>\<lparr>schemaName = ''public'', tableName = Some ''users'',
         sql = ''insert into "public"."users" ("full_name", "id") values ($1, $2), ($3, $4) on conflict ("id") do update set "full_name" = excluded."full_name"'',
         bindings = [JStr ''A'', JNum 1, JStr ''B'', JNum 2]\<rparr>\<close>
  let ?s = \<open>''"id" in ($2, $3)''\<close>
  have s: "buildSelectQuery ''spec'' ''chainId'' ''public.users'' ?filters
             (noOptions\<lparr>limit := Some 10\<rparr>) = Inr ?q"
    by code_simp
  have d: "detectSpecSchemaQuery ''spec'' ''chainId'' ''public.users'' (truthyGroups ?filters)
             (noOptions\<lparr>limit := Some 10\<rparr>) = Inr (''public.users'', ?groups)"
    by code_simp
  have u: "buildUpsertQuery ''public.users'' ?data [''id''] [''fullName''] None None = Inr ?q2"
    by code_simp
  have e: "specStatement ''id'' (JArr [JNum 7, JNum 8]) 2 = Some ?s"
    by code_simp
  have n1: "[1..<Suc (length (bindings ?q))] = [1, 2, 3, 4]" by code_simp
  have n2: "[1..<Suc (length (bindings ?q2))] = [1, 2, 3, 4]" by code_simp
  have n3: "[2..<2 + length (specValues ''id'' (JArr [JNum 7, JNum 8]))] = [2, 3]" by code_simp
  have n4: "[1 * 2 + 1..<1 * 2 + 2 + 1] = [3, 4::nat]" by code_simp
  note t = placeholders_match_bindings[where SPEC_SCHEMA = "''spec''"
      and CHAIN_ID_PROPERTY = "''chainId''" and table = "''public.users''" and filters = ?filters
      and options = "noOptions\<lparr>limit := Some 10\<rparr>" and q = ?q
      and colPath = "''id''" and val = "JArr [JNum 7, JNum 8]" and i = 2 and s = ?s
      and ?table2.0 = "''public.users''" and data = ?data and conflictColumns = "[''id'']"
      and updateColumns = "[''fullName'']" and pts = None and ret = None and ?q2.0 = ?q2
      and m = 2 and r = 1]
  from t s have p1: "placeholders (sql ?q) = [1, 2, 3, 4]" unfolding n1 by blast
  from t s d have b1: "bindings ?q = concat (map specGroupValues (map groupEntries ?groups))"
    by auto
  from t e have p3: "placeholders ?s = [2, 3]" unfolding n3 by blast
  from t u have p2: "placeholders (sql ?q2) = [1, 2, 3, 4]" unfolding n2 by blast
  from t have p4: "placeholders (rowPlaceholders 2 1 1) = [3, 4]" unfolding n4 by blast
  from s p1 b1[symmetric] e p3 u p2 p4 show ?thesis
    by (simp only: QueryPayload.simps simp_thms)
qed

section \<open>Selects with no usable filter\<close>

lemma specOperator_None_path: "specOperator k v = None \<Longrightarrow> specOperator k' v = None"
  by (cases v) (simp_all split: if_splits)

lemma specEntry_dropped:
  assumes "specSkipped v \<or> specOperator k v = None"
  shows "specEntry k' v st = st"
proof (cases "specOperator k' v")
  case None
  then show ?thesis by (cases st) (simp add: specEntry_def)
next
  case (Some op)
  with assms specOperator_None_path[of k v k'] have "specSkipped v" by auto
  with Some show ?thesis by (cases st) (simp add: specEntry_def)
qed

lemma andLoop_dropped:
  assumes "\<forall>v \<in> snd ` set entries. v \<noteq> JNull \<and> (specSkipped v \<or> specOperator [] v = None)"
  shows "andLoop entries st = Inr st"
  using assms
proof (induction entries)
  case Nil
  show ?case by simp
next
  case (Cons entry entries)
  obtain colPath val where entry: "entry = (colPath, val)" by (cases entry)
  from Cons.prems entry have n: "val \<noteq> JNull"
    and d: "specSkipped val \<or> specOperator [] val = None" by auto
  have "andEntry colPath val st = Inr st"
    using andEntry_specEntry[OF n, of colPath st] specEntry_dropped[OF d, of colPath st] by simp
  moreover have "andLoop entries st = Inr st" using Cons by simp
  ultimately show ?case using entry by simp
qed

lemma objSet_entries: "set (objSet m k v) \<subseteq> insert (k, v) (set m)"
  by (induction m) (auto split: if_splits)

lemma insertIndex_entries: "set (insertIndex m k v) = insert (k, v) (set m)"
  by (induction m) (auto split: if_splits)

lemma defineProperty_entries: "set (defineProperty m k v) = insert (k, v) (set m)"
  by (simp add: defineProperty_def insertIndex_entries)

lemma assign_entries:
  assumes "key \<noteq> ''__proto__''"
  shows "snd (assign (own, p) key v) = p \<and>
         set (fst (assign (own, p) key v)) \<subseteq> insert (key, v) (set own)"
  using assms objSet_entries[of own key v]
  by (simp add: assign_def defineProperty_entries)

lemma foldl_assign_values:
  assumes "\<forall>propertyName \<in> fst ` set flt. f propertyName \<noteq> ''__proto__''"
  shows "snd (foldl (\<lambda>formatted (propertyName, v). assign formatted (f propertyName) v)
                (own, p) flt) = p \<and>
         snd ` set (fst (foldl (\<lambda>formatted (propertyName, v). assign formatted (f propertyName) v)
                           (own, p) flt))
           \<subseteq> snd ` set own \<union> snd ` set flt"
  using assms
proof (induction flt arbitrary: own)
  case Nil
  show ?case by simp
next
  case (Cons e flt)
  obtain k v where e: "e = (k, v)" by (cases e)
  let ?F = "\<lambda>formatted (propertyName, v). assign formatted (f propertyName) v"
  from Cons.prems e have k: "f k \<noteq> ''__proto__''"
    and rest: "\<forall>propertyName \<in> fst ` set flt. f propertyName \<noteq> ''__proto__''"
    by auto
  obtain own' p' where a: "assign (own, p) (f k) v = (own', p')"
    by (cases "assign (own, p) (f k) v")
  from assign_entries[OF k, of own p v] a have p': "p' = p"
    and own': "set own' \<subseteq> insert (f k, v) (set own)" by simp_all
  have sub: "snd ` set own' \<subseteq> insert v (snd ` set own)"
  proof
    fix x
    assume "x \<in> snd ` set own'"
    then obtain c where "(c, x) \<in> set own'" by auto
    with own' have "(c, x) = (f k, v) \<or> (c, x) \<in> set own" by auto
    then show "x \<in> insert v (snd ` set own)"
      using image_eqI[of x snd "(c, x)" "set own"] by auto
  qed
  have step: "foldl ?F (own, p) (e # flt) = foldl ?F (own', p) flt"
    using e a p' by simp
  from Cons.IH[OF rest, of own'] have
    1: "snd (foldl ?F (own', p) flt) = p" and
    2: "snd ` set (fst (foldl ?F (own', p) flt)) \<subseteq> snd ` set own' \<union> snd ` set flt"
    by blast+
  have "snd ` set own' \<union> snd ` set flt \<subseteq> snd ` set own \<union> snd ` set (e # flt)"
    using sub e by auto
  with 1 2 show ?case unfolding step by blast
qed

lemma formatFilter_plainObject:
  assumes "\<forall>propertyName \<in> fst ` set flt. toSnakeCase propertyName \<noteq> ''__proto__''"
  shows "snd (formatFilter (plainObject flt)) = ObjectPrototype \<and>
         snd ` set (fst (formatFilter (plainObject flt))) \<subseteq> snd ` set flt"
  using foldl_assign_values[OF assms, of "[]" ObjectPrototype]
  by (simp add: formatFilter_def plainObject_def forIn_def)

lemma orLoop_dropped:
  assumes "\<forall>g \<in> set gs. snd g = ObjectPrototype \<and>
             (\<forall>v \<in> snd ` set (fst g).
                v \<noteq> JNull \<and> (specSkipped v \<or> specOperator [] v = None))"
  shows "orLoop gs (orStatements, vals, i) = Inr (orStatements, vals, i)"
  using assms
proof (induction gs)
  case Nil
  show ?case by simp
next
  case (Cons g gs)
  obtain own p where g: "g = (own, p)" by (cases g)
  from Cons.prems g have p: "p = ObjectPrototype" by simp
  have f: "forIn g = own" using g p by (simp add: forIn_def)
  have "andLoop own ([], vals, i) = Inr ([], vals, i)"
    using Cons.prems g by (intro andLoop_dropped) simp
  then have "buildAndStatement g vals i = Inr (if own = [] then None else Some [], vals, i)"
    using f g by (simp add: buildAndStatement_def)
  moreover have "orLoop gs (orStatements, vals, i) = Inr (orStatements, vals, i)"
    using Cons by simp
  ultimately show ?case by (cases "own = []") simp_all
qed

text \<open>
  A select outside the logical schema, with no block range, all of whose entries are
  dropped for a reason other than a \<open>null\<close> value, and none of whose keys is
  \<open>__proto__\<close> under its snake-cased name: the unfiltered select.
\<close>

lemma buildSelectQuery_dropped_entries:
  assumes schema: "fst (splitTable table) \<noteq> SPEC_SCHEMA"
    and norange: "blockRange options = None \<or> blockRange options = Some []"
    and dropped: "\<forall>g \<in> set (truthyGroups filters). \<forall>(k, v) \<in> set g.
                    toSnakeCase k \<noteq> ''__proto__'' \<and>
                    v \<noteq> JNull \<and> (specSkipped v \<or> specOperator k v = None)"
  shows "buildSelectQuery SPEC_SCHEMA CHAIN_ID_PROPERTY table filters options =
           Inr \<lparr> schemaName = fst (splitTable table), tableName = snd (splitTable table),
                  sql = addSelectOptionsToQuery (''select * from '' @ identPath table) options,
                  bindings = [] \<rparr>"
proof -
  have d: "detectSpecSchemaQuery SPEC_SCHEMA CHAIN_ID_PROPERTY table (truthyGroups filters) options
             = Inr (table, map plainObject (truthyGroups filters))"
    using schema by (cases "splitTable table") (simp add: detectSpecSchemaQuery_def)
  have b: "(case blockRange options of None \<Rightarrow> [] | Some r \<Rightarrow> r) = []"
    using norange by auto
  have "\<forall>g \<in> set (map formatFilter (map plainObject (truthyGroups filters))).
          snd g = ObjectPrototype \<and>
          (\<forall>v \<in> snd ` set (fst g).
             v \<noteq> JNull \<and> (specSkipped v \<or> specOperator [] v = None))"
  proof (intro ballI conjI)
    fix g
    assume g: "g \<in> set (map formatFilter (map plainObject (truthyGroups filters)))"
    then obtain g0 where g0: "g0 \<in> set (truthyGroups filters)"
      "g = formatFilter (plainObject g0)" by auto
    have keys: "\<forall>propertyName \<in> fst ` set g0. toSnakeCase propertyName \<noteq> ''__proto__''"
    proof
      fix k assume "k \<in> fst ` set g0"
      then obtain v where kv: "(k, v) \<in> set g0" by auto
      from bspec[OF bspec[OF dropped g0(1)] kv] show "toSnakeCase k \<noteq> ''__proto__''" by simp
    qed
    from formatFilter_plainObject[OF keys] g0(2)
    show "snd g = ObjectPrototype" by simp
    fix v
    assume v: "v \<in> snd ` set (fst g)"
    with formatFilter_plainObject[OF keys] g0(2) obtain k where kv: "(k, v) \<in> set g0" by auto
    from bspec[OF bspec[OF dropped g0(1)] kv]
    have "v \<noteq> JNull" "specSkipped v \<or> specOperator k v = None" by simp_all
    then show "v \<noteq> JNull" and "specSkipped v \<or> specOperator [] v = None"
      using specOperator_None_path[of k v "[]"] by auto
  qed
  from orLoop_dropped[OF this]
  have l: "orLoop (map formatFilter (map plainObject (truthyGroups filters))) ([], [], Suc 0)
             = Inr ([], [], Suc 0)" .
  obtain schema0 tbl where st: "splitTable table = (schema0, tbl)" by (cases "splitTable table")
  show ?thesis
    unfolding buildSelectQuery_def Let_def d b
    by (simp add: st l del: map_map)
qed

text \<open>
  Claim C8. A select outside the logical schema, with no block range, whose filter entries
  are all malformed is to compile to the unfiltered select with no bindings and without an
  error. The code does so when there is no group and when every entry is dropped for a
  reason other than a \<open>null\<close> value (\<open>buildSelectQuery_dropped_entries\<close>, for keys
  other than \<open>__proto__\<close>). On an entry
  whose value is \<open>null\<close> it raises a \<open>TypeError\<close>: \<open>value.op\<close> is read, \<open>typeof null\<close> being
  \<open>'object'\<close>, before the test \<open>value === null\<close> that would have skipped the entry.
\<close>

theorem buildSelectQuery_null_value_raises:
  "buildSelectQuery ''spec'' ''chainId'' ''public.users'' (FiltersMap [(''id'', JNull)]) noOptions
     = Inl TypeError"
  by code_simp

end
